theory Spec2Isabelle
  imports Complex_Main "HOL-Library.Word"
begin

section \<open>Data model of \<^verbatim>\<open>SoundSegment.cpp\<close>\<close>

text \<open>
  A sample is an \<^verbatim>\<open>int16_t\<close>. A sample buffer (\<^verbatim>\<open>std::vector<int16_t>\<close> behind a
  \<^verbatim>\<open>shared_ptr\<close>) lives in the store of its track: \<open>heap\<close> is the list of the
  buffers allocated so far and a buffer handle is an index into it. Two nodes that hold
  the same handle alias the same buffer, as the two halves of \<^verbatim>\<open>splitNode\<close> do.
  No buffer is ever shared between two tracks (\<^verbatim>\<open>insert\<close> copies the samples), so each
  track carries its own store.

  The chain \<^verbatim>\<open>head -> next -> ...\<close> is the list \<open>chain\<close>; a node pointer is an index
  into it. A \<^verbatim>\<open>weak_ptr\<close> in \<^verbatim>\<open>children\<close> or \<^verbatim>\<open>parents\<close> is recorded by whether it is
  still alive (\<open>True\<close>) or expired (\<open>False\<close>).

  \<^verbatim>\<open>size_t\<close> is taken as 64 bits wide. Sizes are natural numbers; the sums of two
  caller-supplied values (\<^verbatim>\<open>pos + len\<close> in \<^verbatim>\<open>write\<close> and \<^verbatim>\<open>deleteRange\<close>, \<^verbatim>\<open>src_pos + len\<close>
  in the \<^verbatim>\<open>insert\<close> of the second implementation) wrap around and are written with
  \<open>mod 2 ^ 64\<close>. All other sums are bounded by the number of samples held in allocated
  buffers and are written without it. An allocation fails only where the size asked
  for is out of range: memory is never short here.
\<close>

type_synonym sample = "16 word"

record SegmentNode =
  data :: nat
  offset :: nat
  length_seg :: nat
  global_start :: nat
  parents :: "bool list"
  children :: "bool list"
  is_buffer_owner :: bool

record SoundSegment =
  heap :: "sample list list"
  chain :: "SegmentNode list"
  total_length :: nat

definition SIZE_MOD :: nat where
  "SIZE_MOD = 2 ^ 64"

text \<open>\<^verbatim>\<open>SegmentNode(data_ptr, offset, len)\<close>\<close>

definition mk_node :: "nat \<Rightarrow> nat \<Rightarrow> nat \<Rightarrow> SegmentNode" where
  "mk_node data_ptr off len =
     \<lparr>data = data_ptr, offset = off, length_seg = len, global_start = 0,
      parents = [], children = [], is_buffer_owner = False\<rparr>"

definition createSegment :: "nat \<Rightarrow> nat \<Rightarrow> nat \<Rightarrow> SegmentNode" where
  "createSegment d off len = mk_node d off len"

text \<open>\<^verbatim>\<open>hasActiveChildren\<close>: some weak child reference has not expired.\<close>

fun hasActiveChildren_list :: "bool list \<Rightarrow> bool" where
  "hasActiveChildren_list [] = False"
| "hasActiveChildren_list (alive # ws) = (if alive then True else hasActiveChildren_list ws)"

definition hasActiveChildren :: "SegmentNode \<Rightarrow> bool" where
  "hasActiveChildren n = hasActiveChildren_list (children n)"

text \<open>\<^verbatim>\<open>SoundSegment()\<close> and \<^verbatim>\<open>create()\<close>: no node, length 0.\<close>

definition create :: SoundSegment where
  "create = \<lparr>heap = [], chain = [], total_length = 0\<rparr>"

text \<open>
  \<^verbatim>\<open>memcpy(dst + d, src + s, n * BYTES_PER_SAMPLE)\<close> on sample arrays. \<^verbatim>\<open>memmove\<close> is the
  same with source and destination in one buffer: it reads the old contents.
\<close>

definition memcpy :: "sample list \<Rightarrow> nat \<Rightarrow> sample list \<Rightarrow> nat \<Rightarrow> nat \<Rightarrow> sample list" where
  "memcpy dst d src s n = take d dst @ take n (drop s src) @ drop (d + n) dst"

definition memmove :: "sample list \<Rightarrow> nat \<Rightarrow> nat \<Rightarrow> nat \<Rightarrow> sample list" where
  "memmove buf d s n = memcpy buf d buf s n"

subsection \<open>\<^verbatim>\<open>updateGlobalIndices\<close>, \<^verbatim>\<open>findSegmentAt\<close>, \<^verbatim>\<open>splitNode\<close>\<close>

fun reindex :: "nat \<Rightarrow> SegmentNode list \<Rightarrow> SegmentNode list" where
  "reindex global_pos [] = []"
| "reindex global_pos (c # cs) =
     c\<lparr>global_start := global_pos\<rparr> # reindex (global_pos + length_seg c) cs"

fun reindex_end :: "nat \<Rightarrow> SegmentNode list \<Rightarrow> nat" where
  "reindex_end global_pos [] = global_pos"
| "reindex_end global_pos (c # cs) = reindex_end (global_pos + length_seg c) cs"

definition updateGlobalIndices :: "SoundSegment \<Rightarrow> SoundSegment" where
  "updateGlobalIndices t =
     t\<lparr>chain := reindex 0 (chain t), total_length := reindex_end 0 (chain t)\<rparr>"

text \<open>
  \<^verbatim>\<open>findSegmentAt\<close> returns the node as its index in the chain together with
  \<^verbatim>\<open>local_offset\<close>; \<open>None\<close> is \<^verbatim>\<open>nullptr\<close>.
\<close>

fun findSegmentAt_from :: "nat \<Rightarrow> SegmentNode list \<Rightarrow> nat \<Rightarrow> (nat \<times> nat) option" where
  "findSegmentAt_from i [] pos = None"
| "findSegmentAt_from i (c # cs) pos =
     (if pos \<ge> global_start c \<and> pos < global_start c + length_seg c
      then Some (i, pos - global_start c)
      else findSegmentAt_from (Suc i) cs pos)"

definition findSegmentAt :: "SoundSegment \<Rightarrow> nat \<Rightarrow> (nat \<times> nat) option" where
  "findSegmentAt t pos = findSegmentAt_from 0 (chain t) pos"

text \<open>
  \<^verbatim>\<open>splitNode(node, local_offset)\<close> on the node at index \<open>i\<close>: the right half is linked
  after the truncated node and is returned as index \<open>i + 1\<close>.
\<close>

definition splitNode :: "SegmentNode list \<Rightarrow> nat \<Rightarrow> nat \<Rightarrow> (SegmentNode list \<times> nat) option" where
  "splitNode cs i local_offset =
     (if i \<ge> length cs \<or> local_offset \<ge> length_seg (cs ! i) then None
      else
        let node = cs ! i;
            right = (mk_node (data node) (offset node + local_offset)
                       (length_seg node - local_offset))
                    \<lparr>global_start := global_start node + local_offset\<rparr>
        in Some (take i cs @ [node\<lparr>length_seg := local_offset\<rparr>, right] @ drop (Suc i) cs,
                 Suc i))"

subsection \<open>\<^verbatim>\<open>read\<close>, \<^verbatim>\<open>getAllSamples\<close>\<close>

fun read_loop ::
  "sample list list \<Rightarrow> SegmentNode list \<Rightarrow> sample list \<Rightarrow> nat \<Rightarrow> nat \<Rightarrow> nat \<Rightarrow> sample list"
where
  "read_loop h [] dest start_pos len samples_copied = dest"
| "read_loop h (c # cs) dest start_pos len samples_copied =
     (if samples_copied < len then
        (if start_pos \<ge> global_start c \<and> start_pos < global_start c + length_seg c then
           let local_index = start_pos - global_start c;
               samples_in_node = length_seg c - local_index;
               samples_remaining = len - samples_copied;
               samples_to_copy = min samples_remaining samples_in_node
           in read_loop h cs
                (memcpy dest samples_copied (h ! data c) (offset c + local_index) samples_to_copy)
                (start_pos + samples_to_copy) len (samples_copied + samples_to_copy)
         else read_loop h cs dest start_pos len samples_copied)
      else dest)"

text \<open>\<^verbatim>\<open>read(int16_t* dest, start_pos, len)\<close>: \<open>dest\<close> is the caller's array, returned updated.\<close>

definition read_ptr :: "SoundSegment \<Rightarrow> sample list \<Rightarrow> nat \<Rightarrow> nat \<Rightarrow> sample list" where
  "read_ptr t dest start_pos len = read_loop (heap t) (chain t) dest start_pos len 0"

text \<open>\<^verbatim>\<open>vector::resize(n)\<close>: keeps the first elements, fills new ones with 0.\<close>

definition resize :: "sample list \<Rightarrow> nat \<Rightarrow> sample list" where
  "resize v n = take n v @ replicate (n - length v) 0"

text \<open>\<^verbatim>\<open>read(std::vector<int16_t>& dest, start_pos, len)\<close>\<close>

definition read :: "SoundSegment \<Rightarrow> sample list \<Rightarrow> nat \<Rightarrow> nat \<Rightarrow> sample list" where
  "read t dest start_pos len = read_ptr t (resize dest len) start_pos len"

definition getAllSamples :: "SoundSegment \<Rightarrow> sample list" where
  "getAllSamples t = read_ptr t (replicate (total_length t) 0) 0 (total_length t)"

definition length_track :: "SoundSegment \<Rightarrow> nat" where
  "length_track t = total_length t"

subsection \<open>\<^verbatim>\<open>write\<close>\<close>

fun write_loop ::
  "sample list list \<Rightarrow> SegmentNode list \<Rightarrow> sample list \<Rightarrow> nat \<Rightarrow> nat \<Rightarrow> nat \<Rightarrow> sample list list"
where
  "write_loop h [] src remaining global_index src_index = h"
| "write_loop h (c # cs) src remaining global_index src_index =
     (if remaining > 0 then
        (if global_index \<ge> global_start c \<and> global_index < global_start c + length_seg c then
           let local_offset = global_index - global_start c;
               available = length_seg c - local_offset;
               to_write = min remaining available
           in write_loop
                (h[data c := memcpy (h ! data c) (offset c + local_offset) src src_index to_write])
                cs src (remaining - to_write) (global_index + to_write) (src_index + to_write)
         else write_loop h cs src remaining global_index src_index)
      else h)"

text \<open>
  The failures of the two implementations: dereferencing a null \<^verbatim>\<open>shared_ptr\<close>, the
  \<^verbatim>\<open>std::length_error\<close> of a vector that is asked for more than \<^verbatim>\<open>max_size()\<close>
  elements, and an access behind the end of a buffer.
\<close>

datatype error = NullDereference | LengthError | OutOfBounds

text \<open>
  \<^verbatim>\<open>std::vector<int16_t>::max_size()\<close>: \<^verbatim>\<open>PTRDIFF_MAX / sizeof(int16_t)\<close>, the largest
  number of samples of a vector.
\<close>

definition MAX_SIZE :: nat where
  "MAX_SIZE = 2 ^ 62 - 1"

text \<open>
  \<^verbatim>\<open>std::make_shared<std::vector<int16_t>>(n)\<close>: a buffer of \<open>n\<close> zero samples, or the
  exception when \<open>n\<close> is beyond \<^verbatim>\<open>max_size()\<close>.
\<close>

definition new_buffer :: "nat \<Rightarrow> error + sample list" where
  "new_buffer n = (if n > MAX_SIZE then Inl LengthError else Inr (replicate n 0))"

text \<open>
  The extension step of \<^verbatim>\<open>write\<close>: a zero-filled buffer of the whole new size for an
  empty track, otherwise one of the size of the gap behind the last node. The buffer is
  allocated before the chain is touched.
\<close>

definition extend_track :: "SoundSegment \<Rightarrow> nat \<Rightarrow> error + SoundSegment" where
  "extend_track t end_pos =
     (if chain t = [] then
        (case new_buffer end_pos of
           Inl e \<Rightarrow> Inl e
         | Inr data_buffer \<Rightarrow>
             Inr (t\<lparr>heap := heap t @ [data_buffer],
                    chain := [(mk_node (length (heap t)) 0 end_pos)\<lparr>is_buffer_owner := True\<rparr>]\<rparr>))
      else
        let lst = last (chain t);
            last_end = global_start lst + length_seg lst
        in if last_end < end_pos then
             let new_node_len = end_pos - last_end
             in (case new_buffer new_node_len of
                   Inl e \<Rightarrow> Inl e
                 | Inr data_buffer \<Rightarrow>
                     Inr (t\<lparr>heap := heap t @ [data_buffer],
                            chain := chain t @
                              [(mk_node (length (heap t)) 0 new_node_len)
                                 \<lparr>global_start := last_end, is_buffer_owner := True\<rparr>]\<rparr>))
           else Inr t)"

text \<open>
  \<^verbatim>\<open>write(src, pos, len)\<close> with the exception as a value; \<open>src\<close> holds the \<open>len\<close> samples.
\<close>

definition write_result :: "SoundSegment \<Rightarrow> sample list \<Rightarrow> nat \<Rightarrow> error + SoundSegment" where
  "write_result t src pos =
     (let len = length src in
      if len = 0 then Inr t
      else
        let end_pos = (pos + len) mod SIZE_MOD in
        case (if end_pos > total_length t then
                (case extend_track t end_pos of
                   Inl e \<Rightarrow> Inl e
                 | Inr t0 \<Rightarrow> Inr (updateGlobalIndices t0))
              else Inr t) of
          Inl e \<Rightarrow> Inl e
        | Inr t1 \<Rightarrow> Inr (t1\<lparr>heap := write_loop (heap t1) (chain t1) src len pos 0\<rparr>))"

text \<open>
  The track after \<^verbatim>\<open>write(src, pos, len)\<close>. The exception is thrown before anything is
  changed, so it leaves the track as it was.
\<close>

definition write_track :: "SoundSegment \<Rightarrow> sample list \<Rightarrow> nat \<Rightarrow> SoundSegment" where
  "write_track t src pos = (case write_result t src pos of Inl e \<Rightarrow> t | Inr t' \<Rightarrow> t')"

text \<open>\<^verbatim>\<open>loadFromWav\<close> writes the samples that \<^verbatim>\<open>WavIO::load\<close> returned at position 0.\<close>

definition loadFromWav :: "SoundSegment \<Rightarrow> sample list \<Rightarrow> SoundSegment" where
  "loadFromWav t samples = write_track t samples 0"

subsection \<open>\<^verbatim>\<open>deleteRange\<close>\<close>

text \<open>
  First pass of \<^verbatim>\<open>deleteRange\<close>, from the node \<^verbatim>\<open>current\<close> on: \<open>True\<close> when a visited
  node has an active child, which makes the call return \<^verbatim>\<open>false\<close>.
\<close>

fun check_pass :: "nat \<Rightarrow> nat \<Rightarrow> SegmentNode list \<Rightarrow> bool" where
  "check_pass to_check local_off [] = False"
| "check_pass to_check local_off (current # rest) =
     (if to_check > 0 then
        (if hasActiveChildren current then True
         else
           let available = length_seg current - local_off
           in if to_check > available then check_pass (to_check - available) 0 rest
              else False)
      else False)"

text \<open>
  Second pass, on the part of the chain that starts at \<^verbatim>\<open>current\<close>. The nodes before it
  (up to \<^verbatim>\<open>prev\<close>) are not touched; unlinking \<^verbatim>\<open>current\<close> through \<^verbatim>\<open>prev->next\<close> or
  \<^verbatim>\<open>head\<close> drops it from the list.
\<close>

fun delete_pass ::
  "nat \<Rightarrow> nat \<Rightarrow> sample list list \<Rightarrow> SegmentNode list \<Rightarrow> sample list list \<times> SegmentNode list"
where
  "delete_pass to_delete local_off h [] = (h, [])"
| "delete_pass to_delete local_off h (current # rest) =
     (if to_delete > 0 then
        let available = length_seg current - local_off
        in if to_delete < available then
             (h[data current :=
                  memmove (h ! data current) (offset current + local_off)
                    (offset current + local_off + to_delete) (available - to_delete)],
              current\<lparr>length_seg := length_seg current - to_delete\<rparr> # rest)
           else
             let to_delete' = to_delete - available;
                 current' = current\<lparr>length_seg := local_off\<rparr>
             in if length_seg current' = 0 then delete_pass to_delete' 0 h rest
                else if to_delete' > 0 then
                  (case delete_pass to_delete' 0 h rest of (h', rest') \<Rightarrow> (h', current' # rest'))
                else (h, current' # rest)
      else (h, current # rest))"

definition deleteRange :: "SoundSegment \<Rightarrow> nat \<Rightarrow> nat \<Rightarrow> bool \<times> SoundSegment" where
  "deleteRange t pos len =
     (if (pos + len) mod SIZE_MOD > total_length t then (False, t)
      else
        case findSegmentAt t pos of
          None \<Rightarrow> (True, updateGlobalIndices t)
        | Some (i, local_off) \<Rightarrow>
            if check_pass len local_off (drop i (chain t)) then (False, t)
            else
              case delete_pass len local_off (heap t) (drop i (chain t)) of
                (h', rest') \<Rightarrow>
                  (True, updateGlobalIndices (t\<lparr>heap := h', chain := take i (chain t) @ rest'\<rparr>)))"

subsection \<open>\<^verbatim>\<open>insert\<close>\<close>

text \<open>Dereferencing a null \<^verbatim>\<open>shared_ptr\<close> is the one failure of \<^verbatim>\<open>insert\<close>.\<close>

text \<open>
  The loop of \<^verbatim>\<open>insert\<close> that builds the nodes to insert. The clone that shares the
  source buffer is replaced at once by one over a fresh copy of the samples
  (\<^verbatim>\<open>data_copy\<close>), allocated here in the store of the destination.
\<close>

function build_insertion ::
  "SoundSegment \<Rightarrow> nat \<Rightarrow> nat \<Rightarrow> sample list list \<Rightarrow> SegmentNode list
     \<Rightarrow> sample list list \<times> SegmentNode list"
where
  "build_insertion src_track remaining current_global h ins =
     (if remaining > 0 then
        (case findSegmentAt src_track current_global of
           None \<Rightarrow> (h, ins)
         | Some (i, local_off) \<Rightarrow>
             let cur_node = chain src_track ! i;
                 take_n = min (length_seg cur_node - local_off) remaining;
                 data_copy = memcpy (replicate take_n 0) 0 (heap src_track ! data cur_node)
                               (offset cur_node + local_off) take_n;
                 clone = (createSegment (length h) 0 take_n)\<lparr>is_buffer_owner := True\<rparr>
             in build_insertion src_track (remaining - take_n) (current_global + take_n)
                  (h @ [data_copy]) (ins @ [clone]))
      else (h, ins))"
  by pat_completeness auto
termination
proof (relation "measure (\<lambda>(s, remaining, g, h, ins). remaining)")
  show "wf (measure (\<lambda>(s, remaining, g, h, ins). remaining))" by simp
next
  fix src_track :: SoundSegment and remaining current_global :: nat
    and h :: "sample list list" and ins :: "SegmentNode list"
    and x2 :: "nat \<times> nat" and i local_off :: nat
    and cur_node take_n data_copy clone
  assume pos: "0 < remaining"
    and f: "findSegmentAt src_track current_global = Some x2"
    and x2: "(i, local_off) = x2"
    and cn: "cur_node = chain src_track ! i"
    and tn: "take_n = min (length_seg cur_node - local_off) remaining"
  have found: "findSegmentAt_from k cs p = Some (j, lo) \<Longrightarrow>
      k \<le> j \<and> j - k < length cs \<and> lo < length_seg (cs ! (j - k))" for k cs p j lo
  proof (induction cs arbitrary: k)
    case Nil
    then show ?case by simp
  next
    case (Cons c cs)
    show ?case
    proof (cases "p \<ge> global_start c \<and> p < global_start c + length_seg c")
      case True
      with Cons.prems show ?thesis by auto
    next
      case False
      with Cons.prems have "findSegmentAt_from (Suc k) cs p = Some (j, lo)" by simp
      from Cons.IH [OF this] show ?thesis by (auto simp: Suc_diff_le)
    qed
  qed
  from f x2 have "findSegmentAt_from 0 (chain src_track) current_global = Some (i, local_off)"
    by (simp add: findSegmentAt_def)
  from found [OF this] cn have "local_off < length_seg cur_node" by simp
  with pos tn have "0 < take_n" by simp
  with pos show "((src_track, remaining - take_n, current_global + take_n, h @ [data_copy],
                   ins @ [clone]),
                  (src_track, remaining, current_global, h, ins))
                 \<in> measure (\<lambda>(s, remaining, g, h, ins). remaining)"
    by simp
qed

text \<open>
  Where \<^verbatim>\<open>insert\<close> splices: \<^verbatim>\<open>dest_node\<close> after the optional \<^verbatim>\<open>splitNode\<close>, with the
  chain as the split left it.
\<close>

definition locate_dest :: "SoundSegment \<Rightarrow> nat \<Rightarrow> SegmentNode list \<times> nat option" where
  "locate_dest t dest_pos =
     (case findSegmentAt t dest_pos of
        None \<Rightarrow> (chain t, None)
      | Some (i, dest_local) \<Rightarrow>
          if dest_local > 0 then
            (case splitNode (chain t) i dest_local of
               None \<Rightarrow> (chain t, None)
             | Some (cs', j) \<Rightarrow> (cs', Some j))
          else (chain t, Some i))"

text \<open>
  The splice. With \<^verbatim>\<open>dest_node\<close> null the new nodes go behind the tail (or become the
  head). Otherwise \<^verbatim>\<open>insertion_tail->next = dest_node\<close> is executed on both paths, and
  \<^verbatim>\<open>insertion_tail\<close> is null when the loop built no node.
\<close>

definition splice ::
  "SoundSegment \<Rightarrow> sample list list \<Rightarrow> SegmentNode list \<Rightarrow> SegmentNode list \<Rightarrow> nat option
     \<Rightarrow> error + SoundSegment" where
  "splice t h ins cs dest_node =
     (case dest_node of
        None \<Rightarrow> Inr (updateGlobalIndices (t\<lparr>heap := h, chain := cs @ ins\<rparr>))
      | Some j \<Rightarrow>
          if j = 0 then
            (if ins = [] then Inl NullDereference
             else Inr (updateGlobalIndices (t\<lparr>heap := h, chain := ins @ cs\<rparr>)))
          else
            (if ins = [] then Inl NullDereference
             else Inr (updateGlobalIndices
                    (t\<lparr>heap := h, chain := take j cs @ ins @ drop j cs\<rparr>))))"

definition insert_track ::
  "SoundSegment \<Rightarrow> SoundSegment \<Rightarrow> nat \<Rightarrow> nat \<Rightarrow> nat \<Rightarrow> error + SoundSegment" where
  "insert_track t src_track dest_pos src_pos len =
     (if len = 0 then Inr t
      else
        case build_insertion src_track len src_pos (heap t) [] of
          (h, ins) \<Rightarrow>
            (case locate_dest t dest_pos of
               (cs, dest_node) \<Rightarrow> splice t h ins cs dest_node))"

subsection \<open>\<^verbatim>\<open>identify\<close>\<close>

text \<open>
  The correlation is computed in \<^verbatim>\<open>double\<close>. A \<^verbatim>\<open>double\<close> is taken as the real number
  it stands for, and an operation returns the exact result rounded to the nearest
  \<^verbatim>\<open>double\<close>, ties to the even significand (the default rounding mode of IEEE 754).
  Only the significand of 53 bits is modelled, not the range of the exponent: every
  value that \<^verbatim>\<open>identify\<close> computes is 0 or of a magnitude between \<open>0.9\<close> and \<open>2 ^ 92\<close>,
  far from overflow and from the subnormal numbers.
\<close>

text \<open>Rounding to the nearest integer, ties to even.\<close>

definition round_half_even :: "real \<Rightarrow> int" where
  "round_half_even q =
     (let f = \<lfloor>q\<rfloor>; r = q - of_int f
      in if r < 1 / 2 then f else if r > 1 / 2 then f + 1 else if even f then f else f + 1)"

text \<open>
  The exponent \<open>e\<close> with \<open>2 ^ e \<le> |x| < 2 ^ (e + 1)\<close>, and the distance between
  neighbouring \<^verbatim>\<open>double\<close>s of that magnitude.
\<close>

definition binade :: "real \<Rightarrow> int" where
  "binade x = \<lfloor>log 2 \<bar>x\<bar>\<rfloor>"

definition ulp :: "real \<Rightarrow> real" where
  "ulp x = 2 powr real_of_int (binade x - 52)"

definition to_double :: "real \<Rightarrow> real" where
  "to_double x = (if x = 0 then 0 else real_of_int (round_half_even (x / ulp x)) * ulp x)"

definition double_add :: "real \<Rightarrow> real \<Rightarrow> real" where
  "double_add a b = to_double (a + b)"

definition double_mul :: "real \<Rightarrow> real \<Rightarrow> real" where
  "double_mul a b = to_double (a * b)"


text \<open>\<^verbatim>\<open>static_cast<double>\<close> of a sample, which is exact.\<close>

definition sample_value :: "sample \<Rightarrow> real" where
  "sample_value x = real_of_int (sint x)"


definition corr :: "sample list \<Rightarrow> sample list \<Rightarrow> nat \<Rightarrow> real" where
  "corr target_samples ad_samples i =
     foldl (\<lambda>acc j. double_add acc
              (double_mul (sample_value (target_samples ! (i + j))) (sample_value (ad_samples ! j))))
       0 [0..<length ad_samples]"

text \<open>
  The scanning loop of \<^verbatim>\<open>identify\<close>, returning \<^verbatim>\<open>occurrences\<close>. It is entered with a
  non-empty pattern only (the early return of \<^verbatim>\<open>identify\<close>); the first test keeps the
  function total.
\<close>

function identify_loop ::
  "sample list \<Rightarrow> sample list \<Rightarrow> real \<Rightarrow> nat \<Rightarrow> (nat \<times> nat) list" where
  "identify_loop target_samples ad_samples threshold i =
     (if length ad_samples = 0 then []
      else if i \<le> length target_samples - length ad_samples then
        (if corr target_samples ad_samples i \<ge> threshold
         then (i, i + length ad_samples - 1) #
                identify_loop target_samples ad_samples threshold (i + length ad_samples)
         else identify_loop target_samples ad_samples threshold (i + 1))
      else [])"
  by pat_completeness auto
termination
proof (relation "measure (\<lambda>(t, a, thr, i). Suc (length t - length a) - i)")
  fix target_samples ad_samples :: "sample list" and threshold :: real and i :: nat
  assume "length ad_samples \<noteq> 0" and "i \<le> length target_samples - length ad_samples"
  then have "Suc (length target_samples - length ad_samples) - (i + length ad_samples)
               < Suc (length target_samples - length ad_samples) - i"
    by arith
  then show "((target_samples, ad_samples, threshold, i + length ad_samples),
              (target_samples, ad_samples, threshold, i))
             \<in> measure (\<lambda>(t, a, thr, i). Suc (length t - length a) - i)"
    by simp
qed auto


text \<open>The result string: \<^verbatim>\<open>first,second\<close> for each occurrence, separated by newlines.\<close>

function show_nat :: "nat \<Rightarrow> string" where
  "show_nat n =
     (if n < 10 then [''0123456789'' ! n]
      else show_nat (n div 10) @ [''0123456789'' ! (n mod 10)])"
  by pat_completeness auto
termination
  by (relation "measure (\<lambda>n. n)") auto



section \<open>The second implementation, \<^verbatim>\<open>SoundSegment_Simple.cpp\<close>\<close>

text \<open>
  Its \<^verbatim>\<open>updateGlobalIndices\<close>, \<^verbatim>\<open>findSegmentAt\<close>, \<^verbatim>\<open>read\<close>, \<^verbatim>\<open>getAllSamples\<close> and \<^verbatim>\<open>identify\<close>
  repeat those of \<^verbatim>\<open>SoundSegment.cpp\<close> statement for statement over raw pointers, and
  its nodes have no \<^verbatim>\<open>children\<close>. \<^verbatim>\<open>write\<close> differs in how the buffer is allocated;
  \<^verbatim>\<open>deleteRange\<close> and \<^verbatim>\<open>insert\<close> differ throughout.
\<close>

function deleteRange_Simple_loop ::
  "nat \<Rightarrow> nat \<Rightarrow> sample list list \<Rightarrow> SegmentNode list \<Rightarrow> sample list list \<times> SegmentNode list"
where
  "deleteRange_Simple_loop remaining cur_pos h cs =
     (if remaining > 0 then
        (case findSegmentAt_from 0 cs cur_pos of
           None \<Rightarrow> (h, cs)
         | Some (i, local_off) \<Rightarrow>
             let current = cs ! i;
                 available = length_seg current - local_off;
                 to_delete = (if remaining < available then remaining else available)
             in deleteRange_Simple_loop (remaining - to_delete) cur_pos
                  (h[data current :=
                       memmove (h ! data current) (offset current + local_off)
                         (offset current + local_off + to_delete) (available - to_delete)])
                  (cs[i := current\<lparr>length_seg := length_seg current - to_delete\<rparr>]))
      else (h, cs))"
  by pat_completeness auto
termination
proof (relation "measure (\<lambda>(remaining, p, h, cs). remaining)")
  show "wf (measure (\<lambda>(remaining, p, h, cs). remaining))" by simp
next
  fix remaining cur_pos :: nat and h :: "sample list list" and cs :: "SegmentNode list"
    and x2 :: "nat \<times> nat" and i local_off :: nat and current available to_delete
  assume pos: "0 < remaining"
    and f: "findSegmentAt_from 0 cs cur_pos = Some x2"
    and x2: "(i, local_off) = x2"
    and cn: "current = cs ! i"
    and av: "available = length_seg current - local_off"
    and td: "to_delete = (if remaining < available then remaining else available)"
  have found: "findSegmentAt_from k ns p = Some (j, lo) \<Longrightarrow>
      k \<le> j \<and> j - k < length ns \<and> lo < length_seg (ns ! (j - k))" for k ns p j lo
  proof (induction ns arbitrary: k)
    case Nil
    then show ?case by simp
  next
    case (Cons c ns)
    show ?case
    proof (cases "p \<ge> global_start c \<and> p < global_start c + length_seg c")
      case True
      with Cons.prems show ?thesis by auto
    next
      case False
      with Cons.prems have "findSegmentAt_from (Suc k) ns p = Some (j, lo)" by simp
      from Cons.IH [OF this] show ?thesis by (auto simp: Suc_diff_le)
    qed
  qed
  from f x2 have "findSegmentAt_from 0 cs cur_pos = Some (i, local_off)" by simp
  from found [OF this] cn have "local_off < length_seg current" by simp
  with pos av td have "0 < to_delete" by simp
  with pos show "((remaining - to_delete, cur_pos,
                   h[data current :=
                       memmove (h ! data current) (offset current + local_off)
                         (offset current + local_off + to_delete) (available - to_delete)],
                   cs[i := current\<lparr>length_seg := length_seg current - to_delete\<rparr>]),
                  (remaining, cur_pos, h, cs))
                 \<in> measure (\<lambda>(remaining, p, h, cs). remaining)"
    by simp
qed

definition deleteRange_Simple :: "SoundSegment \<Rightarrow> nat \<Rightarrow> nat \<Rightarrow> bool \<times> SoundSegment" where
  "deleteRange_Simple t pos len =
     (if (pos + len) mod SIZE_MOD > total_length t then (False, t)
      else
        case deleteRange_Simple_loop len pos (heap t) (chain t) of
          (h', cs') \<Rightarrow> (True, updateGlobalIndices (t\<lparr>heap := h', chain := cs'\<rparr>)))"

text \<open>
  \<^verbatim>\<open>malloc(n * BYTES_PER_SAMPLE)\<close> followed by \<^verbatim>\<open>memset\<close>: a buffer of \<open>n\<close> zero samples.
  When the byte count wraps around, \<^verbatim>\<open>malloc\<close> is asked for fewer bytes than the \<open>n\<close>
  samples the node is given: the program exits if the request is refused, and the copy
  of the payload runs behind the end of the buffer if it is granted. Every request
  whose byte count does not wrap is granted here.
\<close>

definition BYTES_PER_SAMPLE :: nat where
  "BYTES_PER_SAMPLE = 2"

definition malloc_buffer :: "nat \<Rightarrow> error + sample list" where
  "malloc_buffer n =
     (if n * BYTES_PER_SAMPLE \<ge> SIZE_MOD then Inl OutOfBounds else Inr (replicate n 0))"

definition extend_Simple :: "SoundSegment \<Rightarrow> nat \<Rightarrow> error + SoundSegment" where
  "extend_Simple t end_pos =
     (if chain t = [] then
        (case malloc_buffer end_pos of
           Inl e \<Rightarrow> Inl e
         | Inr data_buffer \<Rightarrow>
             Inr (t\<lparr>heap := heap t @ [data_buffer],
                    chain := [(mk_node (length (heap t)) 0 end_pos)\<lparr>is_buffer_owner := True\<rparr>]\<rparr>))
      else
        let lst = last (chain t);
            last_end = global_start lst + length_seg lst
        in if last_end < end_pos then
             let new_node_len = end_pos - last_end
             in (case malloc_buffer new_node_len of
                   Inl e \<Rightarrow> Inl e
                 | Inr data_buffer \<Rightarrow>
                     Inr (t\<lparr>heap := heap t @ [data_buffer],
                            chain := chain t @
                              [(mk_node (length (heap t)) 0 new_node_len)
                                 \<lparr>global_start := last_end, is_buffer_owner := True\<rparr>]\<rparr>))
           else Inr t)"

definition write_Simple :: "SoundSegment \<Rightarrow> sample list \<Rightarrow> nat \<Rightarrow> error + SoundSegment" where
  "write_Simple t src pos =
     (let len = length src in
      if len = 0 then Inr t
      else
        let end_pos = (pos + len) mod SIZE_MOD in
        case (if end_pos > total_length t then
                (case extend_Simple t end_pos of
                   Inl e \<Rightarrow> Inl e
                 | Inr t0 \<Rightarrow> Inr (updateGlobalIndices t0))
              else Inr t) of
          Inl e \<Rightarrow> Inl e
        | Inr t1 \<Rightarrow> Inr (t1\<lparr>heap := write_loop (heap t1) (chain t1) src len pos 0\<rparr>))"

text \<open>
  \<^verbatim>\<open>insert\<close> of the second implementation. When \<^verbatim>\<open>src_pos + len\<close> wraps around to a value
  within the source, \<^verbatim>\<open>actual_len\<close> stays \<open>len\<close> and the loop that fills \<^verbatim>\<open>insert_data\<close>
  reads \<^verbatim>\<open>src_data\<close> behind its end.
\<close>

definition insert_Simple ::
  "SoundSegment \<Rightarrow> SoundSegment \<Rightarrow> nat \<Rightarrow> nat \<Rightarrow> nat \<Rightarrow> error + SoundSegment"
where
  "insert_Simple t src_track dest_pos src_pos len =
     (let src_data = getAllSamples src_track in
      if src_pos \<ge> length src_data then Inr t
      else
        let actual_len = (if (src_pos + len) mod SIZE_MOD > length src_data
                          then length src_data - src_pos else len)
        in if src_pos + actual_len > length src_data then Inl OutOfBounds
           else
             let insert_data = take actual_len (drop src_pos src_data);
                 dest_data = getAllSamples t;
                 new_data = take dest_pos dest_data @ insert_data @ drop dest_pos dest_data
             in write_Simple (t\<lparr>chain := [], total_length := 0\<rparr>) new_data 0)"

section \<open>Abstraction and invariants\<close>

text \<open>
  The samples a node shows, and the flattened contents of a track: what
  \<^verbatim>\<open>getAllSamples\<close> returns in a consistent track.
\<close>

definition window :: "sample list list \<Rightarrow> SegmentNode \<Rightarrow> sample list" where
  "window h c = take (length_seg c) (drop (offset c) (h ! data c))"

definition flat :: "sample list list \<Rightarrow> SegmentNode list \<Rightarrow> sample list" where
  "flat h cs = concat (map (window h) cs)"

definition flatten :: "SoundSegment \<Rightarrow> sample list" where
  "flatten t = flat (heap t) (chain t)"

text \<open>The cached \<^verbatim>\<open>global_start\<close> of each node is the sum of the lengths before it.\<close>

fun indexed :: "nat \<Rightarrow> SegmentNode list \<Rightarrow> bool" where
  "indexed g [] = True"
| "indexed g (c # cs) = (global_start c = g \<and> indexed (g + length_seg c) cs)"

definition total_of :: "SegmentNode list \<Rightarrow> nat" where
  "total_of cs = sum_list (map length_seg cs)"

definition chain_inv :: "SoundSegment \<Rightarrow> bool" where
  "chain_inv t \<longleftrightarrow>
     indexed 0 (chain t) \<and> total_length t = total_of (chain t) \<and>
     list_all (\<lambda>c. 0 < length_seg c) (chain t)"

text \<open>A node lies inside its buffer; two nodes never show the same cell of a buffer.\<close>

definition in_buffer :: "sample list list \<Rightarrow> SegmentNode \<Rightarrow> bool" where
  "in_buffer h c \<longleftrightarrow> data c < length h \<and> offset c + length_seg c \<le> length (h ! data c)"

definition separate :: "SegmentNode \<Rightarrow> SegmentNode \<Rightarrow> bool" where
  "separate c d \<longleftrightarrow>
     data c \<noteq> data d \<or> offset c + length_seg c \<le> offset d \<or>
     offset d + length_seg d \<le> offset c"

fun pairwise_separate :: "SegmentNode list \<Rightarrow> bool" where
  "pairwise_separate [] = True"
| "pairwise_separate (c # cs) = (list_all (separate c) cs \<and> pairwise_separate cs)"

definition valid_track :: "SoundSegment \<Rightarrow> bool" where
  "valid_track t \<longleftrightarrow>
     chain_inv t \<and> list_all (in_buffer (heap t)) (chain t) \<and> pairwise_separate (chain t)"

text \<open>The tracks that calls of the public operations build from an empty one.\<close>

inductive reachable :: "SoundSegment \<Rightarrow> bool" where
  reach_create: "reachable create"
| reach_write: "reachable t \<Longrightarrow> reachable (write_track t src pos)"
| reach_deleteRange: "reachable t \<Longrightarrow> reachable (snd (deleteRange t pos len))"
| reach_insert:
    "reachable t \<Longrightarrow> reachable s \<Longrightarrow> insert_track t s dest_pos src_pos len = Inr t'
       \<Longrightarrow> reachable t'"
| reach_loadFromWav: "reachable t \<Longrightarrow> reachable (loadFromWav t samples)"

text \<open>The nodes that the range \<open>[pos, pos + len)\<close> touches.\<close>

definition touched :: "nat \<Rightarrow> nat \<Rightarrow> SegmentNode \<Rightarrow> bool" where
  "touched pos len c \<longleftrightarrow>
     0 < len \<and> global_start c < pos + len \<and> pos < global_start c + length_seg c"

text \<open>The contents of a track padded with zeros up to \<open>end_pos\<close>.\<close>

definition padded :: "SoundSegment \<Rightarrow> nat \<Rightarrow> sample list" where
  "padded t end_pos = flatten t @ replicate (end_pos - total_length t) 0"

text \<open>
  A track in which the second node has two child references, one expired and one alive:
  the state that a zero-copy \<^verbatim>\<open>insert\<close> calling \<^verbatim>\<open>addChild\<close> would leave behind.
\<close>

definition shared_track :: SoundSegment where
  "shared_track =
     \<lparr>heap = [[1, 2, 3], [4, 5]],
      chain = [mk_node 0 0 3, (mk_node 1 0 2)\<lparr>global_start := 3, children := [False, True]\<rparr>],
      total_length = 5\<rparr>"

text \<open>
  The nodes that the loop of \<^verbatim>\<open>insert\<close> builds over the buffers \<open>bufs\<close> it allocates
  behind the store \<open>h\<close>: non-empty, inside their buffers, in buffers of their own.
\<close>

definition fresh_clones :: "sample list list \<Rightarrow> sample list list \<Rightarrow> SegmentNode list \<Rightarrow> bool" where
  "fresh_clones h bufs clones \<longleftrightarrow>
     length bufs = length clones \<and>
     list_all (\<lambda>c. 0 < length_seg c) clones \<and>
     list_all (in_buffer (h @ bufs)) clones \<and>
     list_all (\<lambda>c. length h \<le> data c) clones \<and>
     pairwise_separate clones"



section \<open>Properties of the store and of the loops\<close>

declare build_insertion.simps [simp del] identify_loop.simps [simp del] show_nat.simps [simp del]
  deleteRange_Simple_loop.simps [simp del]

subsection \<open>Buffers and windows\<close>

lemma length_memcpy:
  "d + n \<le> length dst \<Longrightarrow> s + n \<le> length src \<Longrightarrow> length (memcpy dst d src s n) = length dst"
  by (simp add: memcpy_def)

lemma nth_memcpy:
  assumes "d + n \<le> length dst" "s + n \<le> length src" "i < length dst"
  shows "memcpy dst d src s n ! i = (if d \<le> i \<and> i < d + n then src ! (s + (i - d)) else dst ! i)"
proof -
  have l1: "length (take d dst) = d" using assms(1) by simp
  have l2: "length (take n (drop s src)) = n" using assms(2) by simp
  consider "i < d" | "d \<le> i" "i < d + n" | "d + n \<le> i" by linarith
  then show ?thesis
  proof cases
    case 1
    then show ?thesis using assms(3) unfolding memcpy_def by (simp add: nth_append)
  next
    case 2
    then have "memcpy dst d src s n ! i = take n (drop s src) ! (i - d)"
      unfolding memcpy_def by (simp add: nth_append l1 l2 del: length_take)
    also have "\<dots> = src ! (s + (i - d))" using 2 assms(2) by simp
    finally show ?thesis using 2 by simp
  next
    case 3
    then have "memcpy dst d src s n ! i = drop (d + n) dst ! (i - d - n)"
      unfolding memcpy_def
      by (simp only: nth_append l1 l2 append_assoc[symmetric] length_append) simp
    also have "\<dots> = dst ! i" using 3 assms(1,3) by simp
    finally show ?thesis using 3 by simp
  qed
qed

lemma length_window: "in_buffer h c \<Longrightarrow> length (window h c) = length_seg c"
  by (auto simp add: in_buffer_def window_def)

lemma nth_window:
  "in_buffer h c \<Longrightarrow> i < length_seg c \<Longrightarrow> window h c ! i = h ! data c ! (offset c + i)"
  by (auto simp add: in_buffer_def window_def)


lemma window_store_same:
  assumes "in_buffer h c" "lo + n \<le> length_seg c" "si + n \<le> length src"
  shows "window (h[data c := memcpy (h ! data c) (offset c + lo) src si n]) c =
           take lo (window h c) @ take n (drop si src) @ drop (lo + n) (window h c)"
    (is "window ?h' c = ?rhs")
proof -
  let ?b = "h ! data c"
  have len: "offset c + length_seg c \<le> length ?b" and d: "data c < length h"
    using assms(1) by (simp_all add: in_buffer_def)
  have lb: "length (memcpy ?b (offset c + lo) src si n) = length ?b"
    using len assms(2,3) by (intro length_memcpy) simp_all
  have ib: "in_buffer ?h' c"
    using d len lb by (simp add: in_buffer_def)
  have lw: "length (window h c) = length_seg c" using assms(1) by (rule length_window)
  have "?rhs = memcpy (window h c) lo src si n"
    by (simp add: memcpy_def)
  have lr: "length (memcpy (window h c) lo src si n) = length_seg c"
    using lw assms(2,3) by (simp add: length_memcpy)
  have "window ?h' c = memcpy (window h c) lo src si n"
  proof (rule nth_equalityI)
    show "length (window ?h' c) = length (memcpy (window h c) lo src si n)"
      using ib lr by (simp add: length_window)
  next
    fix i assume "i < length (window ?h' c)"
    then have i: "i < length_seg c" using ib by (simp add: length_window)
    have "window ?h' c ! i = memcpy ?b (offset c + lo) src si n ! (offset c + i)"
      using nth_window [OF ib i] d by simp
    also have "\<dots> = (if lo \<le> i \<and> i < lo + n then src ! (si + (i - lo)) else ?b ! (offset c + i))"
      using len i assms(2,3) by (subst nth_memcpy) auto
    also have "\<dots> = memcpy (window h c) lo src si n ! i"
      using lw i assms by (subst nth_memcpy) (auto simp: nth_window)
    finally show "window ?h' c ! i = memcpy (window h c) lo src si n ! i" .
  qed
  then show ?thesis by (simp add: memcpy_def)
qed

lemma window_store_other:
  assumes "separate c d" "in_buffer h c" "in_buffer h d" "lo + n \<le> length_seg c"
    "si + n \<le> length src"
  shows "window (h[data c := memcpy (h ! data c) (offset c + lo) src si n]) d = window h d"
    (is "window ?h' d = _")
proof (cases "data d = data c")
  case False
  then show ?thesis by (simp add: window_def)
next
  case True
  let ?b = "h ! data c"
  have len: "offset c + length_seg c \<le> length ?b" and dl: "data c < length h"
    using assms(2) by (simp_all add: in_buffer_def)
  have lb: "length (memcpy ?b (offset c + lo) src si n) = length ?b"
    using len assms(4,5) by (intro length_memcpy) simp_all
  have ib: "in_buffer ?h' d"
    using assms(3) True dl lb by (simp add: in_buffer_def)
  have lend: "offset d + length_seg d \<le> length ?b"
    using assms(3) True by (simp add: in_buffer_def)
  from assms(1) True
  have sep: "offset c + length_seg c \<le> offset d \<or> offset d + length_seg d \<le> offset c"
    by (auto simp: separate_def)
  show ?thesis
  proof (rule nth_equalityI)
    show "length (window ?h' d) = length (window h d)"
      using ib assms(3) by (simp add: length_window)
  next
    fix i assume "i < length (window ?h' d)"
    then have i: "i < length_seg d" using ib by (simp add: length_window)
    have "window ?h' d ! i = memcpy ?b (offset c + lo) src si n ! (offset d + i)"
      using nth_window [OF ib i] dl True by simp
    also have "\<dots> = ?b ! (offset d + i)"
      using len lend i sep assms(4,5) by (subst nth_memcpy) auto
    also have "\<dots> = window h d ! i"
      using nth_window [OF assms(3) i] True by simp
    finally show "window ?h' d ! i = window h d ! i" .
  qed
qed

lemma map_length_store:
  assumes "in_buffer h c" "lo + n \<le> length_seg c" "si + n \<le> length src"
  shows "map length (h[data c := memcpy (h ! data c) (offset c + lo) src si n]) = map length h"
proof -
  have "length (memcpy (h ! data c) (offset c + lo) src si n) = length (h ! data c)"
    using assms by (intro length_memcpy) (simp_all add: in_buffer_def)
  then show ?thesis
    using assms(1) by (simp add: map_update list_update_same_conv in_buffer_def)
qed

lemma in_buffer_cong:
  assumes "map length h' = map length h"
  shows "in_buffer h' c = in_buffer h c"
proof -
  from assms have l: "length h' = length h" by (metis length_map)
  have "data c < length h \<Longrightarrow> length (h' ! data c) = length (h ! data c)"
    using assms l by (metis nth_map)
  with l show ?thesis by (auto simp: in_buffer_def)
qed

lemma length_flat: "list_all (in_buffer h) cs \<Longrightarrow> length (flat h cs) = total_of cs"
  by (induction cs) (simp_all add: flat_def total_of_def length_window)

lemma flat_Nil [simp]: "flat h [] = []"
  by (simp add: flat_def)

lemma flat_Cons [simp]: "flat h (c # cs) = window h c @ flat h cs"
  by (simp add: flat_def)

lemma flat_append [simp]: "flat h (cs @ ds) = flat h cs @ flat h ds"
  by (simp add: flat_def)

lemma total_of_simps [simp]:
  "total_of [] = 0" "total_of (c # cs) = length_seg c + total_of cs"
  "total_of (cs @ ds) = total_of cs + total_of ds"
  by (simp_all add: total_of_def)

subsection \<open>Indices\<close>

lemma reindex_end_eq: "reindex_end g cs = g + total_of cs"
  by (induction cs arbitrary: g) simp_all

lemma indexed_reindex: "indexed g (reindex g cs)"
  by (induction cs arbitrary: g) simp_all

lemma reindex_id: "indexed g cs \<Longrightarrow> reindex g cs = cs"
  by (induction cs arbitrary: g) simp_all

lemma length_reindex [simp]: "length (reindex g cs) = length cs"
  by (induction cs arbitrary: g) simp_all

lemma window_reindexed [simp]: "window h (c\<lparr>global_start := g\<rparr>) = window h c"
  by (simp add: window_def)

lemma flat_reindex [simp]: "flat h (reindex g cs) = flat h cs"
  by (induction cs arbitrary: g) simp_all

lemma total_of_reindex [simp]: "total_of (reindex g cs) = total_of cs"
  by (induction cs arbitrary: g) simp_all

lemma in_buffer_reindexed [simp]: "in_buffer h (c\<lparr>global_start := g\<rparr>) = in_buffer h c"
  by (simp add: in_buffer_def)

lemma separate_reindexed [simp]:
  "separate (c\<lparr>global_start := g\<rparr>) = separate c"
  "separate c (d\<lparr>global_start := g\<rparr>) = separate c d"
  by (simp_all add: separate_def fun_eq_iff)

lemma list_all_in_buffer_reindex [simp]:
  "list_all (in_buffer h) (reindex g cs) = list_all (in_buffer h) cs"
  by (induction cs arbitrary: g) simp_all

lemma list_all_separate_reindex [simp]:
  "list_all (separate c) (reindex g cs) = list_all (separate c) cs"
  by (induction cs arbitrary: g) simp_all

lemma pairwise_separate_reindex [simp]:
  "pairwise_separate (reindex g cs) = pairwise_separate cs"
  by (induction cs arbitrary: g) simp_all

lemma list_all_positive_reindex [simp]:
  "list_all (\<lambda>c. 0 < length_seg c) (reindex g cs) = list_all (\<lambda>c. 0 < length_seg c) cs"
  by (induction cs arbitrary: g) simp_all

lemma updateGlobalIndices_id: "chain_inv t \<Longrightarrow> updateGlobalIndices t = t"
  by (simp add: chain_inv_def updateGlobalIndices_def reindex_id reindex_end_eq)

lemma valid_updateGlobalIndices:
  assumes "list_all (\<lambda>c. 0 < length_seg c) (chain t)" "list_all (in_buffer (heap t)) (chain t)"
    "pairwise_separate (chain t)"
  shows "valid_track (updateGlobalIndices t)"
  using assms
  by (simp add: valid_track_def chain_inv_def updateGlobalIndices_def indexed_reindex reindex_end_eq)

lemma flatten_updateGlobalIndices [simp]: "flatten (updateGlobalIndices t) = flatten t"
  by (simp add: flatten_def updateGlobalIndices_def)

lemma indexed_append:
  "indexed g (cs @ ds) \<longleftrightarrow> indexed g cs \<and> indexed (g + total_of cs) ds"
  by (induction cs arbitrary: g) (simp_all add: add.assoc)

subsection \<open>Reading\<close>

lemma read_loop_done:
  "len \<le> copied \<Longrightarrow> read_loop h cs dest start len copied = dest"
  by (cases cs) simp_all

lemma take_memcpy_front:
  assumes "d + n \<le> length dst" "s + n \<le> length src"
  shows "take (d + n) (memcpy dst d src s n) = take d dst @ take n (drop s src)"
proof -
  have "length (take d dst @ take n (drop s src)) = d + n" using assms by simp
  then show ?thesis
    unfolding memcpy_def by (metis append.assoc append_eq_conv_conj)
qed

lemma drop_memcpy_back:
  assumes "d + n \<le> length dst" "s + n \<le> length src"
  shows "drop (d + n + j) (memcpy dst d src s n) = drop (d + n + j) dst"
proof -
  have l: "length (take d dst @ take n (drop s src)) = d + n" using assms by simp
  have "memcpy dst d src s n = (take d dst @ take n (drop s src)) @ drop (d + n) dst"
    by (simp add: memcpy_def)
  then have "drop (d + n + j) (memcpy dst d src s n) = drop j (drop (d + n) dst)"
    using l by (metis drop_drop append_eq_conv_conj add.commute)
  then show ?thesis by (simp add: add.commute)
qed

lemma read_loop_flat:
  assumes "indexed g cs" "list_all (in_buffer h) cs" "copied \<le> len" "len \<le> length dest"
  shows "read_loop h cs dest (g + k) len copied =
           take copied dest @ take (len - copied) (drop k (flat h cs)) @
           drop (copied + min (len - copied) (length (flat h cs) - k)) dest"
  using assms
proof (induction cs arbitrary: g dest k copied)
  case Nil
  then show ?case by simp
next
  case (Cons c cs)
  have lw: "length (window h c) = length_seg c"
    using Cons.prems(2) by (simp add: length_window)
  have gs: "global_start c = g" and ix: "indexed (g + length_seg c) cs"
    using Cons.prems(1) by simp_all
  have ib: "list_all (in_buffer h) cs" and ibc: "in_buffer h c" using Cons.prems(2) by simp_all
  show ?case
  proof (cases "copied < len")
    case False
    then show ?thesis using Cons.prems by simp
  next
    case True
    show ?thesis
    proof (cases "k < length_seg c")
      case False
      then obtain k' where k: "k = length_seg c + k'" using le_Suc_ex not_less by blast
      have "read_loop h (c # cs) dest (g + k) len copied =
            read_loop h cs dest (g + length_seg c + k') len copied"
        using True gs k by (simp add: add.assoc)
      also have "\<dots> = take copied dest @ take (len - copied) (drop k' (flat h cs)) @
           drop (copied + min (len - copied) (length (flat h cs) - k')) dest"
        using Cons.prems by (intro Cons.IH ix ib)
      finally show ?thesis using lw by (simp add: k)
    next
      case inside: True
      define n where "n = min (len - copied) (length_seg c - k)"
      define dest' where "dest' = memcpy dest copied (h ! data c) (offset c + k) n"
      have step: "read_loop h (c # cs) dest (g + k) len copied =
                  read_loop h cs dest' (g + k + n) len (copied + n)"
        using True inside gs by (simp add: Let_def n_def dest'_def)
      define X where "X = take n (drop k (window h c))"
      have lX: "length X = n" using lw inside by (simp add: X_def n_def)
      have wpart: "take n (drop (offset c + k) (h ! data c)) = X"
        unfolding X_def window_def using inside
        by (simp add: n_def take_drop min_def add.commute)
      have dest'_eq: "dest' = take copied dest @ X @ drop (copied + n) dest"
        by (simp add: dest'_def memcpy_def wpart)
      have nle: "copied + n \<le> len" using True by (simp add: n_def)
      show ?thesis
      proof (cases "n = length_seg c - k")
        case exhausted: True
        have X_all: "X = drop k (window h c)" using exhausted lw by (simp add: X_def)
        have ld: "length dest' = length dest"
          using lX nle Cons.prems(4) by (simp add: dest'_eq)
        have "read_loop h cs dest' (g + k + n) len (copied + n) =
              read_loop h cs dest' (g + length_seg c + 0) len (copied + n)"
          using exhausted inside by simp
        also have "\<dots> = take (copied + n) dest' @ take (len - (copied + n)) (drop 0 (flat h cs)) @
             drop (copied + n + min (len - (copied + n)) (length (flat h cs) - 0)) dest'"
          using nle ld Cons.prems(4) by (intro Cons.IH ix ib) simp_all
        finally have r: "read_loop h cs dest' (g + k + n) len (copied + n) =
             take (copied + n) dest' @ take (len - (copied + n)) (flat h cs) @
             drop (copied + n + min (len - (copied + n)) (length (flat h cs))) dest'"
          by simp
        have t1: "take (copied + n) dest' = take copied dest @ X"
          using lX nle Cons.prems(4) by (simp add: dest'_eq)
        have t2: "drop (copied + n + j) dest' = drop (copied + n + j) dest" for j
          using lX nle Cons.prems(4) by (simp add: dest'_eq ac_simps)
        have f1: "take (len - copied) (drop k (flat h (c # cs))) =
                  X @ take (len - (copied + n)) (flat h cs)"
          using lw inside lX nle by (simp add: X_all)
        have f2: "min (len - copied) (length (flat h (c # cs)) - k) =
                  n + min (len - (copied + n)) (length (flat h cs))"
          using lw inside exhausted nle by (simp add: min_def)
        show ?thesis
          unfolding step r t1 t2 f1 f2 by (simp add: add.assoc)
      next
        case partial: False
        then have n: "n = len - copied" "n < length_seg c - k" by (simp_all add: n_def)
        then have "read_loop h cs dest' (g + k + n) len (copied + n) = dest'"
          using True by (intro read_loop_done) simp
        moreover have "take (len - copied) (drop k (flat h (c # cs))) = X"
          using n lw by (simp add: X_def)
        moreover have "min (len - copied) (length (flat h (c # cs)) - k) = n"
          using n lw by (simp add: min_def)
        ultimately show ?thesis
          unfolding step dest'_eq by simp
      qed
    qed
  qed
qed

lemma length_flatten: "valid_track t \<Longrightarrow> length (flatten t) = total_length t"
  by (simp add: valid_track_def chain_inv_def flatten_def length_flat)

lemma getAllSamples_flatten: "valid_track t \<Longrightarrow> getAllSamples t = flatten t"
proof -
  assume v: "valid_track t"
  then have ix: "indexed 0 (chain t)" and ib: "list_all (in_buffer (heap t)) (chain t)"
    by (simp_all add: valid_track_def chain_inv_def)
  have l: "length (flat (heap t) (chain t)) = total_length t"
    using length_flatten [OF v] by (simp add: flatten_def)
  have "getAllSamples t =
        read_loop (heap t) (chain t) (replicate (total_length t) 0) (0 + 0) (total_length t) 0"
    by (simp add: getAllSamples_def read_ptr_def)
  also have "\<dots> = flat (heap t) (chain t)"
    using l by (subst read_loop_flat [OF ix ib]) simp_all
  finally show ?thesis by (simp add: flatten_def)
qed

lemma read_flatten:
  assumes "valid_track t"
  shows "read t dest start len =
           take len (drop start (flatten t)) @
           drop (min len (total_length t - start)) (resize dest len)"
proof -
  have ix: "indexed 0 (chain t)" and ib: "list_all (in_buffer (heap t)) (chain t)"
    using assms by (simp_all add: valid_track_def chain_inv_def)
  have l: "length (flat (heap t) (chain t)) = total_length t"
    using length_flatten [OF assms] by (simp add: flatten_def)
  have lr: "length (resize dest len) = len" by (simp add: resize_def)
  have "read t dest start len = read_loop (heap t) (chain t) (resize dest len) (0 + start) len 0"
    by (simp add: read_def read_ptr_def)
  also have "\<dots> = take len (drop start (flat (heap t) (chain t))) @
           drop (min len (total_length t - start)) (resize dest len)"
    using l lr by (subst read_loop_flat [OF ix ib]) simp_all
  finally show ?thesis by (simp add: flatten_def)
qed

lemma read_in_range:
  assumes "valid_track t" "start + len \<le> total_length t"
  shows "read t dest start len = take len (drop start (flatten t))"
proof -
  have "min len (total_length t - start) = len" using assms(2) by simp
  moreover have "length (resize dest len) = len" by (simp add: resize_def)
  ultimately show ?thesis using assms(1) by (simp add: read_flatten)
qed

subsection \<open>Writing\<close>

lemma separate_sym: "separate c d = separate d c"
  by (auto simp: separate_def)

lemma list_all_in_buffer_cong:
  assumes "map length h' = map length h"
  shows "list_all (in_buffer h') cs = list_all (in_buffer h) cs"
  by (induction cs) (simp_all add: in_buffer_cong [OF assms])

lemma flat_store_other:
  assumes "list_all (separate c) cs" "in_buffer h c" "list_all (in_buffer h) cs"
    "lo + n \<le> length_seg c" "si + n \<le> length src"
  shows "flat (h[data c := memcpy (h ! data c) (offset c + lo) src si n]) cs = flat h cs"
  using assms(1,3)
proof (induction cs)
  case Nil
  then show ?case by simp
next
  case (Cons d ds)
  then show ?case using assms(2,4,5) by (simp add: window_store_other)
qed

lemma write_loop_done: "write_loop h cs src 0 gi si = h"
  by (cases cs) simp_all

lemma write_loop_props:
  assumes "indexed g cs" "list_all (in_buffer h) cs" "pairwise_separate cs"
    "si + rem \<le> length src"
  shows "map length (write_loop h cs src rem (g + k) si) = map length h \<and>
         (\<forall>d. in_buffer h d \<longrightarrow> list_all (separate d) cs \<longrightarrow>
              window (write_loop h cs src rem (g + k) si) d = window h d) \<and>
         flat (write_loop h cs src rem (g + k) si) cs =
           take k (flat h cs) @ take (min rem (length (flat h cs) - k)) (drop si src) @
           drop (k + rem) (flat h cs)"
  using assms
proof (induction cs arbitrary: h g k si rem)
  case Nil
  then show ?case by simp
next
  case (Cons c cs)
  have lw: "length (window h c) = length_seg c"
    using Cons.prems(2) by (simp add: length_window)
  have gs: "global_start c = g" and ix: "indexed (g + length_seg c) cs"
    using Cons.prems(1) by simp_all
  have ib: "list_all (in_buffer h) cs" and ibc: "in_buffer h c" using Cons.prems(2) by simp_all
  have sepc: "list_all (separate c) cs" and pw: "pairwise_separate cs"
    using Cons.prems(3) by simp_all
  show ?case
  proof (cases "rem = 0")
    case True
    then have "write_loop h (c # cs) src rem (g + k) si = h" by simp
    then show ?thesis using True by (simp del: flat_Cons)
  next
    case pos: False
    show ?thesis
    proof (cases "k < length_seg c")
      case False
      then obtain k' where k: "k = length_seg c + k'" using le_Suc_ex not_less by blast
      have step: "write_loop h (c # cs) src rem (g + k) si =
                  write_loop h cs src rem (g + length_seg c + k') si"
        using pos gs k by (simp add: add.assoc)
      note IH = Cons.IH [OF ix ib pw Cons.prems(4), of k']
      show ?thesis
        unfolding step using IH ibc sepc lw by (simp add: k)
    next
      case inside: True
      define n where "n = min rem (length_seg c - k)"
      define h1 where "h1 = h[data c := memcpy (h ! data c) (offset c + k) src si n]"
      have step: "write_loop h (c # cs) src rem (g + k) si =
                  write_loop h1 cs src (rem - n) (g + k + n) (si + n)"
        using pos inside gs by (simp add: Let_def n_def h1_def)
      have kn: "k + n \<le> length_seg c" using inside by (simp add: n_def)
      have sn: "si + n \<le> length src" using Cons.prems(4) by (simp add: n_def)
      have ml1: "map length h1 = map length h"
        unfolding h1_def using ibc kn sn by (rule map_length_store)
      have w1c: "window h1 c = take k (window h c) @ take n (drop si src) @ drop (k + n) (window h c)"
        unfolding h1_def using ibc kn sn by (rule window_store_same)
      have f1: "flat h1 cs = flat h cs"
        unfolding h1_def using sepc ibc ib kn sn by (rule flat_store_other)
      have w1d: "window h1 d = window h d" if "in_buffer h d" "separate d c" for d
        unfolding h1_def using that ibc kn sn
        by (intro window_store_other) (simp_all add: separate_sym)
      have ib1: "list_all (in_buffer h1) cs" and ibc1: "in_buffer h1 c"
        using ib ibc list_all_in_buffer_cong [OF ml1] in_buffer_cong [OF ml1] by simp_all
      show ?thesis
      proof (cases "n = length_seg c - k")
        case exhausted: True
        have step': "write_loop h (c # cs) src rem (g + k) si =
                     write_loop h1 cs src (rem - n) (g + length_seg c + 0) (si + n)"
          unfolding step using exhausted inside by simp
        have "si + n + (rem - n) \<le> length src" using Cons.prems(4) by (simp add: n_def)
        note IH = Cons.IH [OF ix ib1 pw this, of 0]
        let ?h' = "write_loop h1 cs src (rem - n) (g + length_seg c + 0) (si + n)"
        have A: "map length ?h' = map length h" using IH ml1 by simp
        have B: "window ?h' d = window h d" if "in_buffer h d" "list_all (separate d) (c # cs)" for d
        proof -
          have "in_buffer h1 d" using that(1) in_buffer_cong [OF ml1] by simp
          then have "window ?h' d = window h1 d" using IH that(2) by simp
          then show ?thesis using w1d that by simp
        qed
        have wc: "window ?h' c = window h1 c" using IH ibc1 sepc by simp
        have fl: "flat ?h' cs = take (min (rem - n) (length (flat h cs))) (drop (si + n) src) @
                    drop (rem - n) (flat h cs)"
          using IH f1 by simp
        have nrem: "n \<le> rem" by (simp add: n_def)
        have e1: "take (min rem (length (flat h (c # cs)) - k)) (drop si src) =
                  take n (drop si src) @ take (min (rem - n) (length (flat h cs))) (drop (si + n) src)"
        proof -
          have "length (flat h (c # cs)) = length_seg c + length (flat h cs)" using lw by simp
          then have "min rem (length (flat h (c # cs)) - k) = n + min (rem - n) (length (flat h cs))"
            using inside exhausted nrem by arith
          then show ?thesis by (simp add: take_add add.commute)
        qed
        have e2: "drop (k + rem) (flat h (c # cs)) = drop (rem - n) (flat h cs)"
        proof -
          have "k + rem - length (window h c) = rem - n" "length (window h c) \<le> k + rem"
            using lw inside exhausted nrem by arith+
          then show ?thesis by simp
        qed
        have e3: "take k (flat h (c # cs)) = take k (window h c)"
          using lw inside by simp
        have e4: "drop (k + n) (window h c) = []" using lw exhausted inside by simp
        have C: "flat ?h' (c # cs) = take k (flat h (c # cs)) @
                   take (min rem (length (flat h (c # cs)) - k)) (drop si src) @
                   drop (k + rem) (flat h (c # cs))"
          unfolding e1 e2 e3 using wc w1c fl e4 by simp
        show ?thesis unfolding step' using A B C by blast
      next
        case partial: False
        then have n: "n = rem" "rem < length_seg c - k" by (simp_all add: n_def)
        have step': "write_loop h (c # cs) src rem (g + k) si = h1"
          unfolding step using n by (simp add: write_loop_done)
        have C: "flat h1 (c # cs) = take k (flat h (c # cs)) @
                   take (min rem (length (flat h (c # cs)) - k)) (drop si src) @
                   drop (k + rem) (flat h (c # cs))"
          using w1c f1 n lw by (simp add: min_def)
        show ?thesis unfolding step' using ml1 w1d C by (simp add: separate_sym)
      qed
    qed
  qed
qed

lemma window_heap_append: "data c < length h \<Longrightarrow> window (h @ bs) c = window h c"
  by (simp add: window_def nth_append)

lemma in_buffer_heap_append: "in_buffer h c \<Longrightarrow> in_buffer (h @ bs) c"
  by (simp add: in_buffer_def nth_append)

lemma list_all_in_buffer_heap_append:
  "list_all (in_buffer h) cs \<Longrightarrow> list_all (in_buffer (h @ bs)) cs"
  by (induction cs) (simp_all add: in_buffer_heap_append)

lemma flat_heap_append: "list_all (in_buffer h) cs \<Longrightarrow> flat (h @ bs) cs = flat h cs"
  by (induction cs) (simp_all add: window_heap_append in_buffer_def)

lemma pairwise_separate_append:
  "pairwise_separate (cs @ ds) \<longleftrightarrow>
     pairwise_separate cs \<and> pairwise_separate ds \<and> (\<forall>c\<in>set cs. list_all (separate c) ds)"
  by (induction cs) (auto simp: list_all_iff)

lemma indexed_last:
  "indexed g cs \<Longrightarrow> cs \<noteq> [] \<Longrightarrow>
     global_start (last cs) + length_seg (last cs) = g + total_of cs"
  by (induction cs arbitrary: g) (auto simp: add.assoc)

lemma valid_trackD:
  assumes "valid_track t"
  shows "indexed 0 (chain t)" "total_length t = total_of (chain t)"
    "list_all (\<lambda>c. 0 < length_seg c) (chain t)" "list_all (in_buffer (heap t)) (chain t)"
    "pairwise_separate (chain t)"
  using assms by (simp_all add: valid_track_def chain_inv_def)

lemma fresh_separate:
  "list_all (in_buffer h) cs \<Longrightarrow> length h \<le> data n \<Longrightarrow> c \<in> set cs \<Longrightarrow> separate c n"
  by (auto simp: list_all_iff in_buffer_def separate_def)

lemma extend_track_cases:
  assumes "valid_track t" "total_length t < end_pos"
  shows "extend_track t end_pos =
           (if MAX_SIZE < end_pos - total_length t then Inl LengthError
            else Inr (t\<lparr>heap := heap t @ [replicate (end_pos - total_length t) 0],
                        chain := chain t @
                          [(mk_node (length (heap t)) 0 (end_pos - total_length t))
                             \<lparr>global_start := total_length t, is_buffer_owner := True\<rparr>]\<rparr>))"
proof -
  note v = valid_trackD [OF assms(1)]
  show ?thesis
  proof (cases "chain t = []")
    case True
    then have "total_length t = 0" using v(2) by simp
    then show ?thesis using True by (simp add: extend_track_def new_buffer_def mk_node_def)
  next
    case False
    have "global_start (last (chain t)) + length_seg (last (chain t)) = total_length t"
      using indexed_last [OF v(1) False] v(2) by simp
    then show ?thesis
      using False assms(2) by (simp add: extend_track_def new_buffer_def Let_def)
  qed
qed

lemma extend_track_props:
  assumes "valid_track t" "total_length t < end_pos" "end_pos - total_length t \<le> MAX_SIZE"
  obtains t0 where "extend_track t end_pos = Inr t0"
    and "valid_track (updateGlobalIndices t0)"
    and "flatten (updateGlobalIndices t0) = flatten t @ replicate (end_pos - total_length t) 0"
    and "total_length (updateGlobalIndices t0) = end_pos"
proof -
  note v = valid_trackD [OF assms(1)]
  let ?n = "end_pos - total_length t"
  let ?node = "(mk_node (length (heap t)) 0 ?n)\<lparr>global_start := total_length t, is_buffer_owner := True\<rparr>"
  let ?t0 = "t\<lparr>heap := heap t @ [replicate ?n 0], chain := chain t @ [?node]\<rparr>"
  have ext: "extend_track t end_pos = Inr ?t0"
    using extend_track_cases [OF assms(1,2)] assms(3) by simp
  have nd: "data ?node = length (heap t)" "offset ?node = 0" "length_seg ?node = ?n"
    by (simp_all add: mk_node_def)
  have wn: "window (heap t @ [replicate ?n 0]) ?node = replicate ?n 0"
    by (simp add: window_def nd)
  have ibn: "in_buffer (heap t @ [replicate ?n 0]) ?node"
    by (simp add: in_buffer_def nd)
  have sepn: "\<forall>c\<in>set (chain t). list_all (separate c) [?node]"
    using fresh_separate [OF v(4), of ?node] nd by simp
  have pos: "list_all (\<lambda>c. 0 < length_seg c) (chain t @ [?node])"
    using v(3) assms(2) nd by simp
  have 1: "valid_track (updateGlobalIndices ?t0)"
    using pos ibn sepn v(5) list_all_in_buffer_heap_append [OF v(4)]
    by (intro valid_updateGlobalIndices) (simp_all add: pairwise_separate_append)
  have 2: "flatten (updateGlobalIndices ?t0) = flatten t @ replicate (end_pos - total_length t) 0"
    using wn flat_heap_append [OF v(4)]
    by (subst flatten_updateGlobalIndices) (simp add: flatten_def)
  have 3: "total_length (updateGlobalIndices ?t0) = end_pos"
    using v(2) assms(2) nd by (simp add: updateGlobalIndices_def reindex_end_eq)
  from ext 1 2 3 show ?thesis by (rule that)
qed

text \<open>Writing the payload into a consistent track changes the store only.\<close>

lemma write_payload_props:
  assumes "valid_track t" "rem \<le> length src"
  shows "valid_track (t\<lparr>heap := write_loop (heap t) (chain t) src rem pos 0\<rparr>)"
    and "flatten (t\<lparr>heap := write_loop (heap t) (chain t) src rem pos 0\<rparr>) =
           take pos (flatten t) @ take (min rem (total_length t - pos)) src @
           drop (pos + rem) (flatten t)"
proof -
  note v = valid_trackD [OF assms(1)]
  have "0 + rem \<le> length src" using assms(2) by simp
  note P = write_loop_props [OF v(1) v(4) v(5) this, of pos]
  have ml: "map length (write_loop (heap t) (chain t) src rem pos 0) = map length (heap t)"
    using P by simp
  show "valid_track (t\<lparr>heap := write_loop (heap t) (chain t) src rem pos 0\<rparr>)"
    using v list_all_in_buffer_cong [OF ml] by (simp add: valid_track_def chain_inv_def)
  have "length (flat (heap t) (chain t)) = total_length t"
    using length_flatten [OF assms(1)] by (simp add: flatten_def)
  then show "flatten (t\<lparr>heap := write_loop (heap t) (chain t) src rem pos 0\<rparr>) =
           take pos (flatten t) @ take (min rem (total_length t - pos)) src @
           drop (pos + rem) (flatten t)"
    using P by (simp add: flatten_def)
qed

lemma write_result_props:
  fixes t :: SoundSegment and src :: "sample list" and pos :: nat
  defines "end_pos \<equiv> (pos + length src) mod SIZE_MOD"
  assumes "valid_track t" "src \<noteq> []" "end_pos - total_length t \<le> MAX_SIZE"
  obtains t' where "write_result t src pos = Inr t'"
    and "valid_track t'"
    and "flatten t' =
           take pos (padded t end_pos) @
           take (min (length src) (length (padded t end_pos) - pos)) src @
           drop (pos + length src) (padded t end_pos)"
proof -
  obtain t1 where
    w: "write_result t src pos =
          Inr (t1\<lparr>heap := write_loop (heap t1) (chain t1) src (length src) pos 0\<rparr>)"
    and v1: "valid_track t1" and f1: "flatten t1 = padded t end_pos"
  proof (cases "end_pos > total_length t")
    case True
    from extend_track_props [OF assms(2) True assms(4)] obtain t0 where
      e: "extend_track t end_pos = Inr t0" and v0: "valid_track (updateGlobalIndices t0)"
      and f0: "flatten (updateGlobalIndices t0) = padded t end_pos"
      unfolding padded_def by blast
    have "write_result t src pos =
        Inr ((updateGlobalIndices t0)\<lparr>heap := write_loop (heap (updateGlobalIndices t0))
               (chain (updateGlobalIndices t0)) src (length src) pos 0\<rparr>)"
      using assms(3) True e by (simp add: write_result_def Let_def end_pos_def)
    then show ?thesis using v0 f0 by (rule that)
  next
    case False
    have "write_result t src pos =
        Inr (t\<lparr>heap := write_loop (heap t) (chain t) src (length src) pos 0\<rparr>)"
      using assms(3) False by (simp add: write_result_def Let_def end_pos_def)
    moreover have "flatten t = padded t end_pos" using False by (simp add: padded_def)
    ultimately show ?thesis using assms(2) that by blast
  qed
  have l1: "total_length t1 = length (padded t end_pos)"
    using length_flatten [OF v1] f1 by simp
  have "valid_track (t1\<lparr>heap := write_loop (heap t1) (chain t1) src (length src) pos 0\<rparr>)"
    using v1 by (intro write_payload_props) simp_all
  moreover have "flatten (t1\<lparr>heap := write_loop (heap t1) (chain t1) src (length src) pos 0\<rparr>) =
           take pos (padded t end_pos) @
           take (min (length src) (length (padded t end_pos) - pos)) src @
           drop (pos + length src) (padded t end_pos)"
    using write_payload_props(2) [OF v1, of "length src" src pos] f1 l1 by simp
  ultimately show ?thesis using w that by blast
qed

lemma write_result_throws:
  assumes "valid_track t" "src \<noteq> []"
    "MAX_SIZE < (pos + length src) mod SIZE_MOD - total_length t"
  shows "write_result t src pos = Inl LengthError"
proof -
  have "total_length t < (pos + length src) mod SIZE_MOD" using assms(3) by simp
  from extend_track_cases [OF assms(1) this] assms(2,3) this show ?thesis
    by (simp add: write_result_def Let_def)
qed

lemma write_result_empty: "write_result t [] pos = Inr t"
  by (simp add: write_result_def)

lemma write_track_props:
  fixes t :: SoundSegment and src :: "sample list" and pos :: nat
  defines "end_pos \<equiv> (pos + length src) mod SIZE_MOD"
  assumes "valid_track t" "src \<noteq> []" "end_pos - total_length t \<le> MAX_SIZE"
  shows "write_result t src pos = Inr (write_track t src pos)"
    and "valid_track (write_track t src pos)"
    and "flatten (write_track t src pos) =
           take pos (padded t end_pos) @
           take (min (length src) (length (padded t end_pos) - pos)) src @
           drop (pos + length src) (padded t end_pos)"
proof -
  from write_result_props [OF assms(2,3) assms(4) [unfolded end_pos_def]] obtain t' where
    w: "write_result t src pos = Inr t'" and v: "valid_track t'"
    and f: "flatten t' =
           take pos (padded t end_pos) @
           take (min (length src) (length (padded t end_pos) - pos)) src @
           drop (pos + length src) (padded t end_pos)"
    unfolding end_pos_def by blast
  have e: "write_track t src pos = t'" using w by (simp add: write_track_def)
  show "write_result t src pos = Inr (write_track t src pos)" using w e by simp
  show "valid_track (write_track t src pos)" using v e by simp
  show "flatten (write_track t src pos) =
           take pos (padded t end_pos) @
           take (min (length src) (length (padded t end_pos) - pos)) src @
           drop (pos + length src) (padded t end_pos)"
    using f e by simp
qed

lemma valid_write_track:
  assumes "valid_track t"
  shows "valid_track (write_track t src pos)"
proof (cases "src = []")
  case True
  then show ?thesis using assms by (simp add: write_track_def write_result_empty)
next
  case False
  show ?thesis
  proof (cases "(pos + length src) mod SIZE_MOD - total_length t \<le> MAX_SIZE")
    case True
    with assms False show ?thesis by (rule write_track_props(2))
  next
    case False
    then have "write_result t src pos = Inl LengthError"
      using write_result_throws [OF assms \<open>src \<noteq> []\<close>] by simp
    then show ?thesis using assms by (simp add: write_track_def)
  qed
qed

lemma flatten_write_track:
  assumes "valid_track t" "pos + length src < SIZE_MOD" "src \<noteq> []"
    "pos + length src - total_length t \<le> MAX_SIZE"
  shows "flatten (write_track t src pos) =
           take pos (padded t (pos + length src)) @ src @
           drop (pos + length src) (padded t (pos + length src))"
    and "write_result t src pos = Inr (write_track t src pos)"
proof -
  note False = assms(3)
  have e: "(pos + length src) mod SIZE_MOD = pos + length src" using assms(2) by simp
  have a: "(pos + length src) mod SIZE_MOD - total_length t \<le> MAX_SIZE"
    using assms(4) e by simp
  have "length (padded t (pos + length src)) - pos \<ge> length src"
    using length_flatten [OF assms(1)] by (simp add: padded_def)
  then show "flatten (write_track t src pos) =
           take pos (padded t (pos + length src)) @ src @
           drop (pos + length src) (padded t (pos + length src))"
    using write_track_props(3) [OF assms(1) False a] e by (simp add: min_def)
  show "write_result t src pos = Inr (write_track t src pos)"
    using assms(1) False a by (rule write_track_props(1))
qed

lemma valid_create: "valid_track create"
  by (simp add: valid_track_def chain_inv_def create_def)

subsection \<open>Evaluation on concrete tracks\<close>

lemmas eval_defs = write_track_def write_result_def create_def extend_track_def new_buffer_def
  MAX_SIZE_def updateGlobalIndices_def mk_node_def
  createSegment_def SIZE_MOD_def memcpy_def memmove_def getAllSamples_def read_ptr_def read_def
  resize_def deleteRange_def findSegmentAt_def insert_track_def locate_dest_def splice_def
  splitNode_def hasActiveChildren_def Let_def

lemma replicate_numeral: "replicate (numeral k) x = x # replicate (pred_numeral k) x"
  by (simp add: numeral_eq_Suc)

lemmas valid_defs = valid_track_def chain_inv_def in_buffer_def separate_def total_of_def

lemma total_length_write_track:
  assumes "valid_track t" "pos + length src < SIZE_MOD" "src \<noteq> []"
    "pos + length src - total_length t \<le> MAX_SIZE"
  shows "total_length (write_track t src pos) = max (total_length t) (pos + length src)"
proof -
  have "total_length (write_track t src pos) = length (flatten (write_track t src pos))"
    using valid_write_track [OF assms(1)] by (simp add: length_flatten)
  also have "\<dots> = max (total_length t) (pos + length src)"
    using length_flatten [OF assms(1)]
    by (simp add: flatten_write_track(1) [OF assms] padded_def)
  finally show ?thesis .
qed

lemma MAX_SIZE_less: "MAX_SIZE < SIZE_MOD"
  by (simp add: MAX_SIZE_def SIZE_MOD_def)

section \<open>Writing and reading back\<close>

text \<open>
  Claim C4. In a consistent track, for every sample array \<open>S\<close> (a vector, so of at most
  \<^verbatim>\<open>max_size()\<close> samples): after \<^verbatim>\<open>write(S, 0)\<close>, \<^verbatim>\<open>read(dest, 0, len(S))\<close> leaves exactly
  \<open>S\<close> in \<open>dest\<close>, whatever \<open>dest\<close> held before.
\<close>

theorem write_read_round_trip:
  assumes "valid_track t" "length S \<le> MAX_SIZE"
  shows "read (write_track t S 0) dest 0 (length S) = S"
proof (cases "S = []")
  case True
  then show ?thesis
    using assms(1) by (simp add: write_track_def write_result_empty read_flatten resize_def)
next
  case False
  have v: "valid_track (write_track t S 0)" using assms(1) by (rule valid_write_track)
  have b: "0 + length S < SIZE_MOD" using assms(2) MAX_SIZE_less by simp
  have a: "0 + length S - total_length t \<le> MAX_SIZE" using assms(2) by simp
  have "total_length (write_track t S 0) = max (total_length t) (0 + length S)"
    using assms(1) b False a by (rule total_length_write_track)
  then have r: "0 + length S \<le> total_length (write_track t S 0)" by simp
  have "flatten (write_track t S 0) = S @ drop (length S) (padded t (length S))"
    using flatten_write_track(1) [OF assms(1) b False a] by simp
  then show ?thesis using read_in_range [OF v r, of dest] by simp
qed

text \<open>Witness for C4: the track \<open>[0, 0, 0, 5, 6]\<close>, overwritten at 0 with \<open>[7, 8, 9]\<close>.\<close>

theorem write_read_round_trip_witness:
  "valid_track (write_track create [5, 6] 3) \<and> length [7, 8, 9 :: sample] \<le> MAX_SIZE \<and>
   read (write_track (write_track create [5, 6] 3) [7, 8, 9]  0) [] 0 (length [7, 8, 9 :: sample])
     = [7, 8, 9]"
proof -
  have v: "valid_track (write_track create [5, 6] 3)"
    by (simp add: eval_defs valid_defs)
  have l: "length [7, 8, 9 :: sample] \<le> MAX_SIZE" by (simp add: MAX_SIZE_def)
  from v l write_read_round_trip [OF v l, of "[]"] show ?thesis by simp
qed




section \<open>Deleting a range\<close>

subsection \<open>Locating a position\<close>

lemma indexed_lower: "indexed g cs \<Longrightarrow> c \<in> set cs \<Longrightarrow> g \<le> global_start c"
  by (induction cs arbitrary: g) (auto, fastforce)

lemma indexed_upper:
  "indexed g cs \<Longrightarrow> c \<in> set cs \<Longrightarrow> global_start c + length_seg c \<le> g + total_of cs"
  by (induction cs arbitrary: g) (auto, fastforce)

lemma indexed_drop: "indexed g cs \<Longrightarrow> indexed (g + total_of (take i cs)) (drop i cs)"
  using indexed_append [of g "take i cs" "drop i cs"] by simp

lemma indexed_take: "indexed g cs \<Longrightarrow> indexed g (take i cs)"
  using indexed_append [of g "take i cs" "drop i cs"] by simp

lemma findSegmentAt_from_Some:
  assumes "indexed g cs" "findSegmentAt_from i cs pos = Some (j, lo)"
  shows "\<exists>k. j = i + k \<and> k < length cs \<and> lo < length_seg (cs ! k) \<and>
             pos = g + total_of (take k cs) + lo"
  using assms
proof (induction cs arbitrary: g i)
  case Nil
  then show ?case by simp
next
  case (Cons c cs)
  show ?case
  proof (cases "pos \<ge> global_start c \<and> pos < global_start c + length_seg c")
    case True
    with Cons.prems have "j = i + 0 \<and> 0 < length (c # cs) \<and> lo < length_seg ((c # cs) ! 0) \<and>
        pos = g + total_of (take 0 (c # cs)) + lo"
      by auto
    then show ?thesis by blast
  next
    case False
    have f: "findSegmentAt_from (Suc i) cs pos = Some (j, lo)"
      using Cons.prems(2) False by simp
    have ix: "indexed (g + length_seg c) cs" using Cons.prems(1) by simp
    from Cons.IH [OF ix f] obtain k where
      k: "j = Suc i + k" "k < length cs" "lo < length_seg (cs ! k)"
         "pos = g + length_seg c + total_of (take k cs) + lo" by blast
    then have "j = i + Suc k \<and> Suc k < length (c # cs) \<and> lo < length_seg ((c # cs) ! Suc k) \<and>
        pos = g + total_of (take (Suc k) (c # cs)) + lo"
      by simp
    then show ?thesis by blast
  qed
qed

lemma findSegmentAt_from_None:
  assumes "indexed g cs" "g \<le> pos" "findSegmentAt_from i cs pos = None"
  shows "g + total_of cs \<le> pos"
  using assms
proof (induction cs arbitrary: g i)
  case Nil
  then show ?case by simp
next
  case (Cons c cs)
  from Cons.prems have gs: "global_start c = g" and ix: "indexed (g + length_seg c) cs" by simp_all
  from Cons.prems(2,3) gs have le: "g + length_seg c \<le> pos"
    by (simp split: if_splits)
  with Cons.prems(3) gs have "findSegmentAt_from (Suc i) cs pos = None"
    by (simp split: if_splits)
  from Cons.IH [OF ix le this] show ?case by (simp add: add.assoc)
qed

lemma findSegmentAt_Some:
  assumes "valid_track t" "findSegmentAt t pos = Some (i, lo)"
  shows "i < length (chain t)" "lo < length_seg (chain t ! i)"
    "pos = total_of (take i (chain t)) + lo" "pos < total_length t"
proof -
  note v = valid_trackD [OF assms(1)]
  have "findSegmentAt_from 0 (chain t) pos = Some (i, lo)"
    using assms(2) by (simp add: findSegmentAt_def)
  from findSegmentAt_from_Some [OF v(1) this]
  show i: "i < length (chain t)" and lo: "lo < length_seg (chain t ! i)"
    and p: "pos = total_of (take i (chain t)) + lo"
    by auto
  have "total_of (chain t) = total_of (take i (chain t)) + total_of (drop i (chain t))"
    by (metis append_take_drop_id total_of_simps(3))
  moreover have "drop i (chain t) = chain t ! i # drop (Suc i) (chain t)"
    using i by (simp add: Cons_nth_drop_Suc)
  ultimately show "pos < total_length t" using p lo v(2) by simp
qed

lemma findSegmentAt_None:
  assumes "valid_track t" "findSegmentAt t pos = None"
  shows "total_length t \<le> pos"
  using findSegmentAt_from_None [of 0 "chain t" pos 0] assms valid_trackD(1,2) [OF assms(1)]
  by (simp add: findSegmentAt_def)

subsection \<open>The first pass of deleteRange\<close>

lemma check_pass_touched:
  assumes "indexed g cs" "list_all (\<lambda>c. 0 < length_seg c) cs" "cs \<noteq> []"
    "lo < length_seg (hd cs)"
  shows "check_pass n lo cs \<longleftrightarrow> (\<exists>c\<in>set cs. touched (g + lo) n c \<and> hasActiveChildren c)"
  using assms
proof (induction cs arbitrary: g lo n)
  case Nil
  then show ?case by simp
next
  case (Cons c cs)
  from Cons.prems have gs: "global_start c = g" and ix: "indexed (g + length_seg c) cs"
    and lo: "lo < length_seg c" and pc: "list_all (\<lambda>c. 0 < length_seg c) cs"
    by simp_all
  have later: "g + length_seg c \<le> global_start d" "0 < length_seg d" if "d \<in> set cs" for d
    using indexed_lower [OF ix that] pc that by (simp_all add: list_all_iff)
  show ?case
  proof (cases "n = 0")
    case True
    then show ?thesis by (simp add: touched_def)
  next
    case n: False
    have tc: "touched (g + lo) n c" using n gs lo by (simp add: touched_def)
    show ?thesis
    proof (cases "hasActiveChildren c")
      case True
      then show ?thesis using n tc by simp
    next
      case nc: False
      show ?thesis
      proof (cases "n > length_seg c - lo")
        case True
        have eq: "touched (g + lo) n d = touched (g + length_seg c + 0) (n - (length_seg c - lo)) d"
          if "d \<in> set cs" for d
          using later [OF that] True lo by (auto simp: touched_def)
        have "check_pass n lo (c # cs) = check_pass (n - (length_seg c - lo)) 0 cs"
          using n nc True by (simp add: Let_def)
        also have "\<dots> = (\<exists>d\<in>set cs. touched (g + length_seg c + 0) (n - (length_seg c - lo)) d \<and>
                          hasActiveChildren d)"
        proof (cases cs)
          case Nil
          then show ?thesis by simp
        next
          case (Cons d ds)
          then have "0 < length_seg (hd cs)" using pc by simp
          with Cons show ?thesis using ix pc by (intro Cons.IH) simp_all
        qed
        also have "\<dots> = (\<exists>d\<in>set (c # cs). touched (g + lo) n d \<and> hasActiveChildren d)"
          using eq nc by auto
        finally show ?thesis .
      next
        case False
        have "\<not> touched (g + lo) n d" if "d \<in> set cs" for d
          using later [OF that] False lo by (auto simp: touched_def)
        then show ?thesis using n nc False by (auto simp: Let_def)
      qed
    qed
  qed
qed

lemma not_touched_before:
  assumes "indexed 0 cs" "c \<in> set (take i cs)"
  shows "\<not> touched (total_of (take i cs) + lo) n c"
  using indexed_upper [OF indexed_take [OF assms(1)] assms(2)] by (simp add: touched_def)

subsection \<open>The second pass of deleteRange\<close>

lemma window_shrink:
  "m \<le> length_seg c \<Longrightarrow> window h (c\<lparr>length_seg := m\<rparr>) = take m (window h c)"
  by (simp add: window_def min_def)

lemma in_buffer_shrink:
  "in_buffer h c \<Longrightarrow> m \<le> length_seg c \<Longrightarrow> in_buffer h (c\<lparr>length_seg := m\<rparr>)"
  by (simp add: in_buffer_def)

lemma separate_shrink:
  "separate d c \<Longrightarrow> m \<le> length_seg c \<Longrightarrow> separate d (c\<lparr>length_seg := m\<rparr>)"
  by (auto simp: separate_def)

lemma list_all_separate_shrink:
  "list_all (separate c) cs \<Longrightarrow> m \<le> length_seg c \<Longrightarrow>
     list_all (separate (c\<lparr>length_seg := m\<rparr>)) cs"
  by (induction cs) (auto simp: separate_def)

lemma window_memmove:
  assumes "in_buffer h c" "lo + td < length_seg c"
  shows "window (h[data c := memmove (h ! data c) (offset c + lo) (offset c + lo + td)
                    (length_seg c - lo - td)]) (c\<lparr>length_seg := length_seg c - td\<rparr>) =
           take lo (window h c) @ drop (lo + td) (window h c)"
proof -
  let ?b = "h ! data c"
  let ?n = "length_seg c - lo - td"
  let ?h' = "h[data c := memcpy ?b (offset c + lo) ?b (offset c + lo + td) ?n]"
  have len: "offset c + length_seg c \<le> length ?b" using assms(1) by (simp add: in_buffer_def)
  have c1: "lo + ?n \<le> length_seg c" using assms(2) by simp
  have c2: "offset c + lo + td + ?n \<le> length ?b" using assms(2) len by simp
  have X: "take ?n (drop (offset c + lo + td) ?b) = drop (lo + td) (window h c)"
    by (simp add: window_def drop_take add.commute add.left_commute)
  have lX: "length (drop (lo + td) (window h c)) = ?n"
    using assms by (simp add: length_window)
  have "window ?h' c = take lo (window h c) @ drop (lo + td) (window h c) @
          drop (lo + ?n) (window h c)"
    using window_store_same [OF assms(1) c1 c2] X by simp
  moreover have "length (take lo (window h c)) = lo"
    using assms by (simp add: length_window)
  moreover have "length_seg c - td = lo + ?n" using assms(2) by simp
  ultimately have "take (length_seg c - td) (window ?h' c) =
      take lo (window h c) @ drop (lo + td) (window h c)"
    using lX by simp
  then show ?thesis by (simp add: memmove_def window_shrink)
qed

lemma delete_pass_props:
  assumes "list_all (in_buffer h) cs" "pairwise_separate cs"
    "list_all (\<lambda>c. 0 < length_seg c) cs" "cs \<noteq> [] \<longrightarrow> lo < length_seg (hd cs)"
    "delete_pass td lo h cs = (h', cs')"
  shows "map length h' = map length h \<and>
         (\<forall>d. in_buffer h d \<longrightarrow> list_all (separate d) cs \<longrightarrow> window h' d = window h d) \<and>
         flat h' cs' = take lo (flat h cs) @ drop (lo + td) (flat h cs) \<and>
         list_all (\<lambda>c. 0 < length_seg c) cs' \<and> list_all (in_buffer h) cs' \<and>
         pairwise_separate cs' \<and>
         (\<forall>d. list_all (separate d) cs \<longrightarrow> list_all (separate d) cs')"
  using assms
proof (induction cs arbitrary: td lo h' cs')
  case Nil
  then show ?case by simp
next
  case (Cons c rest)
  have lw: "length (window h c) = length_seg c"
    using Cons.prems(1) by (simp add: length_window)
  have ib: "list_all (in_buffer h) rest" and ibc: "in_buffer h c" using Cons.prems(1) by simp_all
  have sepc: "list_all (separate c) rest" and pw: "pairwise_separate rest"
    using Cons.prems(2) by simp_all
  have pr: "list_all (\<lambda>c. 0 < length_seg c) rest" and pc: "0 < length_seg c"
    using Cons.prems(3) by simp_all
  have lo: "lo < length_seg c" using Cons.prems(4) by simp
  have hd_rest: "rest \<noteq> [] \<longrightarrow> 0 < length_seg (hd rest)"
    using pr by (cases rest) simp_all
  show ?case
  proof (cases "td = 0")
    case True
    then have "h' = h" "cs' = c # rest" using Cons.prems(5) by simp_all
    then show ?thesis using True Cons.prems(1,2,3) by (simp del: flat_Cons)
  next
    case td: False
    show ?thesis
    proof (cases "td < length_seg c - lo")
      case True
      define c' where "c' = c\<lparr>length_seg := length_seg c - td\<rparr>"
      have h': "h' = h[data c := memmove (h ! data c) (offset c + lo) (offset c + lo + td)
                         (length_seg c - lo - td)]"
        and cs': "cs' = c' # rest"
        using Cons.prems(5) td True by (simp_all add: Let_def c'_def)
      have c1: "lo + (length_seg c - lo - td) \<le> length_seg c" using True by simp
      have c2: "offset c + lo + td + (length_seg c - lo - td) \<le> length (h ! data c)"
        using True ibc by (simp add: in_buffer_def)
      have h'm: "h' = h[data c := memcpy (h ! data c) (offset c + lo) (h ! data c)
                          (offset c + lo + td) (length_seg c - lo - td)]"
        by (simp add: h' memmove_def)
      have A: "map length h' = map length h"
        unfolding h'm using ibc c1 c2 by (rule map_length_store)
      have B: "window h' d = window h d" if "in_buffer h d" "separate d c" for d
        unfolding h'm using that ibc c1 c2
        by (intro window_store_other) (simp_all add: separate_sym)
      have wc: "window h' c' = take lo (window h c) @ drop (lo + td) (window h c)"
        unfolding h' c'_def using ibc True by (intro window_memmove) simp_all
      have fr: "flat h' rest = flat h rest"
        unfolding h'm using sepc ibc ib c1 c2 by (rule flat_store_other)
      have C: "flat h' cs' = take lo (flat h (c # rest)) @ drop (lo + td) (flat h (c # rest))"
        using wc fr lw True lo by (simp add: cs')
      have D: "list_all (\<lambda>c. 0 < length_seg c) cs'" using pr True by (simp add: cs' c'_def)
      have E: "list_all (in_buffer h) cs'"
        using ib ibc by (simp add: cs' c'_def in_buffer_shrink)
      have F: "pairwise_separate cs'"
        using pw sepc by (simp add: cs' c'_def list_all_separate_shrink)
      have G: "list_all (separate d) cs'" if "list_all (separate d) (c # rest)" for d
        using that by (simp add: cs' c'_def separate_shrink)
      show ?thesis using A B C D E F G by simp
    next
      case consumed: False
      define td' where "td' = td - (length_seg c - lo)"
      define c' where "c' = c\<lparr>length_seg := lo\<rparr>"
      have ibc': "in_buffer h c'" using ibc lo by (simp add: c'_def in_buffer_shrink)
      have sepc': "list_all (separate c') rest"
        using sepc lo by (simp add: c'_def list_all_separate_shrink)
      have wc': "window h c' = take lo (window h c)"
        using lo by (simp add: c'_def window_shrink)
      have tk: "take lo (flat h (c # rest)) = take lo (window h c)" using lw lo by simp
      have dr: "drop (lo + td) (flat h (c # rest)) = drop td' (flat h rest)"
      proof -
        have "lo + td - length (window h c) = td'" "length (window h c) \<le> lo + td"
          using lw lo consumed by (simp_all add: td'_def)
        then show ?thesis by simp
      qed
      show ?thesis
      proof (cases "lo = 0")
        case True
        have r: "delete_pass td' 0 h rest = (h', cs')"
          using Cons.prems(5) td consumed True by (simp add: Let_def td'_def)
        note IH = Cons.IH [OF ib pw pr hd_rest r]
        show ?thesis using IH tk dr True by simp
      next
        case lopos: False
        show ?thesis
        proof (cases "td' > 0")
          case True
          obtain h1 rest' where r: "delete_pass td' 0 h rest = (h1, rest')"
            by (cases "delete_pass td' 0 h rest")
          have h': "h' = h1" and cs': "cs' = c' # rest'"
            using Cons.prems(5) td consumed lopos True r
            by (simp_all add: Let_def td'_def c'_def)
          note IH = Cons.IH [OF ib pw pr hd_rest r]
          have "window h1 c' = window h c'" using IH ibc' sepc' by simp
          then have C: "flat h' cs' = take lo (flat h (c # rest)) @
                          drop (lo + td) (flat h (c # rest))"
            unfolding tk dr using IH wc' by (simp add: h' cs')
          have D: "list_all (\<lambda>c. 0 < length_seg c) cs'"
            using IH lopos by (simp add: cs' c'_def)
          have E: "list_all (in_buffer h) cs'" using IH ibc' by (simp add: cs')
          have F: "pairwise_separate cs'" using IH sepc' by (simp add: cs')
          have G: "list_all (separate d) cs'" if "list_all (separate d) (c # rest)" for d
            using that IH lo by (simp add: cs' c'_def separate_shrink)
          have A: "map length h' = map length h" using IH by (simp add: h')
          have B: "window h' d = window h d"
            if "in_buffer h d" "list_all (separate d) (c # rest)" for d
            using that IH by (simp add: h')
          show ?thesis using A B C D E F G by simp
        next
          case False
          have h': "h' = h" and cs': "cs' = c' # rest"
            using Cons.prems(5) td consumed lopos False
            by (simp_all add: Let_def td'_def c'_def)
          have C: "flat h' cs' = take lo (flat h (c # rest)) @
                          drop (lo + td) (flat h (c # rest))"
            unfolding tk dr using wc' False by (simp add: h' cs')
          have G: "list_all (separate d) cs'" if "list_all (separate d) (c # rest)" for d
            using that lo by (simp add: cs' c'_def separate_shrink)
          show ?thesis
            using C G ib ibc' pw sepc' pr lopos by (simp add: h' cs' c'_def)
        qed
      qed
    qed
  qed
qed

lemma flat_cong:
  "(\<And>d. d \<in> set ds \<Longrightarrow> window h' d = window h d) \<Longrightarrow> flat h' ds = flat h ds"
  by (induction ds) simp_all

lemma list_all_positive_take_drop:
  assumes "list_all P cs"
  shows "list_all P (take i cs)" "list_all P (drop i cs)"
  using assms by (auto simp: list_all_iff dest: in_set_takeD in_set_dropD)

lemma deleteRange_props:
  assumes "valid_track t"
  shows "valid_track (snd (deleteRange t pos len)) \<and>
         (fst (deleteRange t pos len) \<longrightarrow>
            flatten (snd (deleteRange t pos len)) =
              take pos (flatten t) @ drop (pos + len) (flatten t)) \<and>
         (\<not> fst (deleteRange t pos len) \<longrightarrow> snd (deleteRange t pos len) = t)"
proof (cases "(pos + len) mod SIZE_MOD > total_length t")
  case True
  then show ?thesis using assms by (simp add: deleteRange_def)
next
  case guard: False
  note v = valid_trackD [OF assms]
  have lf: "length (flatten t) = total_length t" using assms by (rule length_flatten)
  show ?thesis
  proof (cases "findSegmentAt t pos")
    case None
    have "total_length t \<le> pos" using assms None by (rule findSegmentAt_None)
    moreover have "updateGlobalIndices t = t"
      using assms by (simp add: updateGlobalIndices_id valid_track_def)
    ultimately show ?thesis using guard None assms lf by (simp add: deleteRange_def)
  next
    case (Some a)
    obtain i lo where a: "a = (i, lo)" by (cases a)
    note f = findSegmentAt_Some [OF assms Some [unfolded a]]
    let ?pre = "take i (chain t)" and ?suf = "drop i (chain t)"
    show ?thesis
    proof (cases "check_pass len lo ?suf")
      case True
      then show ?thesis using guard Some a assms by (simp add: deleteRange_def)
    next
      case False
      obtain h' rest' where dp: "delete_pass len lo (heap t) ?suf = (h', rest')"
        by (cases "delete_pass len lo (heap t) ?suf")
      have res: "deleteRange t pos len =
                 (True, updateGlobalIndices (t\<lparr>heap := h', chain := ?pre @ rest'\<rparr>))"
        using guard Some a False dp by (simp add: deleteRange_def)
      have split: "chain t = ?pre @ ?suf" by simp
      have pw: "pairwise_separate ?pre" "pairwise_separate ?suf"
        "\<forall>c\<in>set ?pre. list_all (separate c) ?suf"
        using v(5) pairwise_separate_append [of ?pre ?suf] by simp_all
      have ib: "list_all (in_buffer (heap t)) ?pre" "list_all (in_buffer (heap t)) ?suf"
        using v(4) by (rule list_all_positive_take_drop)+
      have ps: "list_all (\<lambda>c. 0 < length_seg c) ?pre" "list_all (\<lambda>c. 0 < length_seg c) ?suf"
        using v(3) by (rule list_all_positive_take_drop)+
      have hd: "?suf \<noteq> [] \<longrightarrow> lo < length_seg (hd ?suf)"
        using f(1,2) by (simp add: hd_drop_conv_nth)
      note P = delete_pass_props [OF ib(2) pw(2) ps(2) hd dp]
      have ml: "map length h' = map length (heap t)" using P by simp
      have pre_same: "flat h' ?pre = flat (heap t) ?pre"
      proof (rule flat_cong)
        fix d assume d: "d \<in> set ?pre"
        then have "in_buffer (heap t) d" "list_all (separate d) ?suf"
          using ib(1) pw(3) by (simp_all add: list_all_iff)
        then show "window h' d = window (heap t) d" using P by simp
      qed
      have sep': "\<forall>c\<in>set ?pre. list_all (separate c) rest'"
        using P pw(3) by simp
      have V: "valid_track (updateGlobalIndices (t\<lparr>heap := h', chain := ?pre @ rest'\<rparr>))"
      proof (rule valid_updateGlobalIndices)
        show "list_all (\<lambda>c. 0 < length_seg c) (chain (t\<lparr>heap := h', chain := ?pre @ rest'\<rparr>))"
          using ps(1) P by simp
        show "list_all (in_buffer (heap (t\<lparr>heap := h', chain := ?pre @ rest'\<rparr>)))
                (chain (t\<lparr>heap := h', chain := ?pre @ rest'\<rparr>))"
          using ib(1) P list_all_in_buffer_cong [OF ml] by simp
        show "pairwise_separate (chain (t\<lparr>heap := h', chain := ?pre @ rest'\<rparr>))"
          using pw(1) P sep' by (simp add: pairwise_separate_append)
      qed
      have lp: "length (flat (heap t) ?pre) = total_of ?pre"
        using ib(1) by (rule length_flat)
      have F: "flatten t = flat (heap t) ?pre @ flat (heap t) ?suf"
        unfolding flatten_def by (metis append_take_drop_id flat_append)
      have "flatten (updateGlobalIndices (t\<lparr>heap := h', chain := ?pre @ rest'\<rparr>)) =
            flat (heap t) ?pre @ take lo (flat (heap t) ?suf) @
              drop (lo + len) (flat (heap t) ?suf)"
        using P pre_same by (subst flatten_updateGlobalIndices) (simp add: flatten_def)
      also have "\<dots> = take pos (flatten t) @ drop (pos + len) (flatten t)"
        unfolding F f(3) using lp by (simp add: add.assoc)
      finally show ?thesis using V res by simp
    qed
  qed
qed

lemma valid_deleteRange: "valid_track t \<Longrightarrow> valid_track (snd (deleteRange t pos len))"
  using deleteRange_props by blast

lemma deleteRange_check:
  assumes "valid_track t" "(pos + len) mod SIZE_MOD \<le> total_length t"
  shows "fst (deleteRange t pos len) \<longleftrightarrow>
           \<not> (\<exists>c\<in>set (chain t). touched pos len c \<and> hasActiveChildren c)"
proof (cases "findSegmentAt t pos")
  case None
  have "total_length t \<le> pos" using assms(1) None by (rule findSegmentAt_None)
  moreover have "global_start c + length_seg c \<le> total_length t" if "c \<in> set (chain t)" for c
    using indexed_upper [OF _ that, of 0] valid_trackD(1,2) [OF assms(1)] by simp
  ultimately have "\<not> touched pos len c" if "c \<in> set (chain t)" for c
    using that by (fastforce simp: touched_def)
  then show ?thesis using assms(2) None by (auto simp: deleteRange_def)
next
  case (Some a)
  obtain i lo where a: "a = (i, lo)" by (cases a)
  note v = valid_trackD [OF assms(1)]
  note f = findSegmentAt_Some [OF assms(1) Some [unfolded a]]
  let ?pre = "take i (chain t)" and ?suf = "drop i (chain t)"
  have ix: "indexed (0 + total_of ?pre) ?suf" using v(1) by (rule indexed_drop)
  have ps: "list_all (\<lambda>c. 0 < length_seg c) ?suf"
    using v(3) by (rule list_all_positive_take_drop)
  have ne: "?suf \<noteq> []" and hd: "lo < length_seg (hd ?suf)"
    using f(1,2) by (simp_all add: hd_drop_conv_nth)
  have cp: "check_pass len lo ?suf \<longleftrightarrow>
            (\<exists>c\<in>set ?suf. touched pos len c \<and> hasActiveChildren c)"
    using check_pass_touched [OF ix ps ne hd, of len] f(3) by simp
  have "set (chain t) = set ?pre \<union> set ?suf" by (metis append_take_drop_id set_append)
  moreover have "\<not> touched pos len c" if "c \<in> set ?pre" for c
    using not_touched_before [OF v(1) that, of lo len] f(3) by simp
  ultimately have "(\<exists>c\<in>set (chain t). touched pos len c \<and> hasActiveChildren c) \<longleftrightarrow>
                   check_pass len lo ?suf"
    using cp by auto
  moreover have "fst (deleteRange t pos len) \<longleftrightarrow> \<not> check_pass len lo ?suf"
    using assms(2) Some a by (simp add: deleteRange_def split: prod.splits)
  ultimately show ?thesis by simp
qed

lemmas delete_eval = eval_defs replicate_numeral

text \<open>
  Claim C1, amended. For every track and every \<open>pos\<close>, \<open>len\<close> whose sum does not
  exceed the range of \<^verbatim>\<open>size_t\<close>: \<^verbatim>\<open>deleteRange(pos, len)\<close> with
  \<open>pos + len > total_length\<close> returns \<^verbatim>\<open>false\<close>. Whenever \<^verbatim>\<open>deleteRange\<close> returns
  \<^verbatim>\<open>false\<close>, for whatever reason, the track is unchanged: the same chain, the same
  \<^verbatim>\<open>total_length\<close>, and \<^verbatim>\<open>read(0, total_length)\<close> returns the same samples.
\<close>

theorem deleteRange_out_of_range:
  "(total_length t < pos + len \<and> pos + len < SIZE_MOD \<longrightarrow> deleteRange t pos len = (False, t)) \<and>
   (\<not> fst (deleteRange t pos len) \<longrightarrow>
      snd (deleteRange t pos len) = t \<and>
      chain (snd (deleteRange t pos len)) = chain t \<and>
      total_length (snd (deleteRange t pos len)) = total_length t \<and>
      read (snd (deleteRange t pos len)) dest 0 (total_length t) = read t dest 0 (total_length t))"
proof -
  have "snd (deleteRange t pos len) = t" if "\<not> fst (deleteRange t pos len)"
    using that by (auto simp: deleteRange_def split: if_splits option.splits prod.splits)
  then show ?thesis by (auto simp: deleteRange_def)
qed

text \<open>Witness for C1: deleting \<open>[2, 7)\<close> from a track of three samples.\<close>

theorem deleteRange_out_of_range_witness:
  "total_length (write_track create [10, 20, 30] 0) < 2 + 5 \<and> (2::nat) + 5 < SIZE_MOD \<and>
   deleteRange (write_track create [10, 20, 30] 0) 2 5 = (False, write_track create [10, 20, 30] 0) \<and>
   \<not> fst (deleteRange (write_track create [10, 20, 30] 0) 2 5) \<and>
   read (snd (deleteRange (write_track create [10, 20, 30] 0) 2 5)) [] 0 3 = [10, 20, 30]"
proof -
  have l: "total_length (write_track create [10, 20, 30] 0) = 3" by (simp add: delete_eval)
  have b: "(2::nat) + 5 < SIZE_MOD" by (simp add: SIZE_MOD_def)
  have r: "read (write_track create [10, 20, 30] 0) [] 0 3 = [10, 20, 30]"
    by (simp add: delete_eval)
  from deleteRange_out_of_range [of "write_track create [10, 20, 30] 0" 2 5 "[]"] l b r
  show ?thesis by simp
qed

text \<open>
  Counterexample to C1 as stated: on the track \<open>[10, 20, 30]\<close>,
  \<^verbatim>\<open>deleteRange(1, SIZE_MAX)\<close> computes \<^verbatim>\<open>pos + len = 0\<close> by wrap-around, passes the test
  against \<^verbatim>\<open>total_length\<close>, returns \<^verbatim>\<open>true\<close> and leaves \<open>[10]\<close>.
\<close>

theorem deleteRange_wraps_counterexample:
  "total_length (write_track create [10, 20, 30] 0) < 1 + (2 ^ 64 - 1) \<and>
   fst (deleteRange (write_track create [10, 20, 30] 0) 1 (2 ^ 64 - 1)) \<and>
   getAllSamples (snd (deleteRange (write_track create [10, 20, 30] 0) 1 (2 ^ 64 - 1))) = [10]"
  by (simp add: delete_eval)

text \<open>
  Claim C2. In a consistent track with flattened contents \<open>T\<close>, for every \<open>pos\<close>, \<open>len\<close>
  with \<open>pos + len \<le> total_length\<close> such that no touched node has a live child:
  \<^verbatim>\<open>deleteRange(pos, len)\<close> returns \<^verbatim>\<open>true\<close>, the contents become \<open>T\<close> without the slice
  \<open>[pos, pos + len)\<close>, and \<^verbatim>\<open>total_length\<close> decreases by \<open>len\<close>.
\<close>

theorem deleteRange_removes_slice:
  assumes "valid_track t" "pos + len \<le> total_length t"
    "\<forall>c\<in>set (chain t). touched pos len c \<longrightarrow> \<not> hasActiveChildren c"
  shows "fst (deleteRange t pos len) \<and>
         getAllSamples (snd (deleteRange t pos len)) =
           take pos (getAllSamples t) @ drop (pos + len) (getAllSamples t) \<and>
         total_length (snd (deleteRange t pos len)) = total_length t - len"
proof -
  have "(pos + len) mod SIZE_MOD \<le> pos + len" by simp
  with assms(2) have g: "(pos + len) mod SIZE_MOD \<le> total_length t" by linarith
  have ok: "fst (deleteRange t pos len)"
    using deleteRange_check [OF assms(1) g] assms(3) by blast
  note P = deleteRange_props [OF assms(1), of pos len]
  have v': "valid_track (snd (deleteRange t pos len))" using P by simp
  have fl: "flatten (snd (deleteRange t pos len)) =
            take pos (flatten t) @ drop (pos + len) (flatten t)"
    using P ok by simp
  have "total_length (snd (deleteRange t pos len)) =
        length (take pos (flatten t) @ drop (pos + len) (flatten t))"
    using length_flatten [OF v'] fl by simp
  also have "\<dots> = total_length t - len"
    using length_flatten [OF assms(1)] assms(2) by simp
  finally show ?thesis
    using ok fl v' assms(1) by (simp add: getAllSamples_flatten)
qed

text \<open>
  Witness for C2, the example of the specification: \<open>[10, 20, ..., 100]\<close> written at 0,
  then \<^verbatim>\<open>deleteRange(3, 4)\<close>, leaves \<open>[10, 20, 30, 80, 90, 100]\<close>.
\<close>

theorem deleteRange_removes_slice_witness:
  "valid_track (write_track create [10, 20, 30, 40, 50, 60, 70, 80, 90, 100] 0) \<and>
   3 + 4 \<le> total_length (write_track create [10, 20, 30, 40, 50, 60, 70, 80, 90, 100] 0) \<and>
   map hasActiveChildren (chain (write_track create [10, 20, 30, 40, 50, 60, 70, 80, 90, 100] 0))
     = [False] \<and>
   fst (deleteRange (write_track create [10, 20, 30, 40, 50, 60, 70, 80, 90, 100] 0) 3 4) \<and>
   getAllSamples (snd (deleteRange (write_track create [10, 20, 30, 40, 50, 60, 70, 80, 90, 100] 0) 3 4))
     = [10, 20, 30, 80, 90, 100] \<and>
   total_length (snd (deleteRange (write_track create [10, 20, 30, 40, 50, 60, 70, 80, 90, 100] 0) 3 4))
     = 6"
proof -
  let ?t = "write_track create [10, 20, 30, 40, 50, 60, 70, 80, 90, 100] 0"
  have v: "valid_track ?t" by (simp add: delete_eval valid_defs)
  have l: "3 + 4 \<le> total_length ?t" by (simp add: delete_eval)
  have c: "\<forall>c\<in>set (chain ?t). touched 3 4 c \<longrightarrow> \<not> hasActiveChildren c"
    by (simp add: delete_eval)
  have g: "getAllSamples ?t = [10, 20, 30, 40, 50, 60, 70, 80, 90, 100]"
    by (simp add: delete_eval)
  have tl: "total_length ?t = 10" by (simp add: delete_eval)
  have n: "map hasActiveChildren (chain ?t) = [False]" by (simp add: delete_eval)
  from deleteRange_removes_slice [OF v l c] v l n show ?thesis
    by (simp add: g tl)
qed

text \<open>
  Claim C7, amended. In a consistent track, for every range \<open>[pos, pos + len)\<close> in bounds:
  if a node touched by the range has a live child reference, \<^verbatim>\<open>deleteRange(pos, len)\<close>
  returns \<^verbatim>\<open>false\<close> and changes nothing.
\<close>

theorem deleteRange_refused:
  assumes "valid_track t" "pos + len \<le> total_length t"
    "c \<in> set (chain t)" "touched pos len c" "hasActiveChildren c"
  shows "deleteRange t pos len = (False, t)"
proof -
  have "(pos + len) mod SIZE_MOD \<le> pos + len" by simp
  with assms(2) have g: "(pos + len) mod SIZE_MOD \<le> total_length t" by linarith
  have "\<not> fst (deleteRange t pos len)"
    using deleteRange_check [OF assms(1) g] assms(3,4,5) by blast
  moreover from this have "snd (deleteRange t pos len) = t"
    using deleteRange_props [OF assms(1), of pos len] by simp
  ultimately show ?thesis by (simp add: prod_eq_iff)
qed

text \<open>Witness for C7: the range \<open>[2, 4)\<close> of \<open>shared_track\<close> touches its second node.\<close>

theorem deleteRange_refused_witness:
  "valid_track shared_track \<and> 2 + 2 \<le> total_length shared_track \<and>
   chain shared_track ! 1 \<in> set (chain shared_track) \<and> touched 2 2 (chain shared_track ! 1) \<and>
   hasActiveChildren (chain shared_track ! 1) \<and>
   deleteRange shared_track 2 2 = (False, shared_track)"
proof -
  have v: "valid_track shared_track" by (simp add: shared_track_def mk_node_def valid_defs)
  have l: "2 + 2 \<le> total_length shared_track" by (simp add: shared_track_def)
  have m: "chain shared_track ! 1 \<in> set (chain shared_track)" by (simp add: shared_track_def)
  have t: "touched 2 2 (chain shared_track ! 1)"
    by (simp add: shared_track_def mk_node_def touched_def)
  have a: "hasActiveChildren (chain shared_track ! 1)"
    by (simp add: shared_track_def mk_node_def hasActiveChildren_def)
  from deleteRange_refused [OF v l m t a] v l m t a show ?thesis by simp
qed

text \<open>
  Counterexample to the second half of C7 as stated: \<^verbatim>\<open>insert\<close> copies three samples of a
  source track into a destination, whose new node stays alive; the node of the source
  that the samples came from has no child recorded, and \<^verbatim>\<open>deleteRange(0, 3)\<close> on the
  source is not refused.
\<close>

theorem insert_registers_no_child_counterexample:
  "insert_track create (write_track create [100, 101, 102, 103, 104] 0) 0 0 3 =
     Inr \<lparr>heap = [[100, 101, 102]],
          chain = [(mk_node 0 0 3)\<lparr>is_buffer_owner := True\<rparr>], total_length = 3\<rparr> \<and>
   touched 0 3 (hd (chain (write_track create [100, 101, 102, 103, 104] 0))) \<and>
   fst (deleteRange (write_track create [100, 101, 102, 103, 104] 0) 0 3)"
  by (simp add: delete_eval build_insertion.simps touched_def)

section \<open>Inserting from another track\<close>

subsection \<open>Building the nodes to insert\<close>

lemma total_of_split:
  assumes "i < length cs"
  shows "total_of cs = total_of (take i cs) + length_seg (cs ! i) + total_of (drop (Suc i) cs)"
proof -
  have "total_of cs = total_of (take i cs @ cs ! i # drop (Suc i) cs)"
    using assms by (simp add: id_take_nth_drop [symmetric])
  then show ?thesis by simp
qed

lemma flatten_drop_at:
  assumes "valid_track s" "findSegmentAt s cg = Some (i, lo)" "n \<le> length_seg (chain s ! i) - lo"
  shows "take n (drop (offset (chain s ! i) + lo) (heap s ! data (chain s ! i))) =
         take n (drop cg (flatten s))"
proof -
  note v = valid_trackD [OF assms(1)]
  note f = findSegmentAt_Some [OF assms(1,2)]
  let ?c = "chain s ! i"
  let ?pre = "take i (chain s)" and ?post = "drop (Suc i) (chain s)"
  have ch: "chain s = ?pre @ ?c # ?post" using f(1) by (simp add: id_take_nth_drop)
  have ibp: "list_all (in_buffer (heap s)) ?pre"
    using v(4) by (rule list_all_positive_take_drop)
  have ibc: "in_buffer (heap s) ?c" using v(4) f(1) by (simp add: list_all_length)
  have lp: "length (flat (heap s) ?pre) = total_of ?pre" using ibp by (rule length_flat)
  have lw: "length (window (heap s) ?c) = length_seg ?c" using ibc by (rule length_window)
  have "flatten s = flat (heap s) ?pre @ window (heap s) ?c @ flat (heap s) ?post"
    unfolding flatten_def by (subst ch) simp
  then have "drop cg (flatten s) = drop lo (window (heap s) ?c) @ flat (heap s) ?post"
    using lp lw f(2,3) by simp
  moreover have "length (drop lo (window (heap s) ?c)) = length_seg ?c - lo" using lw by simp
  ultimately have "take n (drop cg (flatten s)) = take n (drop lo (window (heap s) ?c))"
    using assms(3) by simp
  also have "\<dots> = take n (drop (offset ?c + lo) (heap s ! data ?c))"
    using assms(3) by (simp add: window_def drop_take min_def add.commute)
  finally show ?thesis by simp
qed

lemma build_insertion_props:
  assumes "valid_track s" "build_insertion s rem cg h ins = (h', ins')"
  shows "\<exists>bufs clones. h' = h @ bufs \<and> ins' = ins @ clones \<and> fresh_clones h bufs clones \<and>
           flat (h @ bufs) clones = take rem (drop cg (flatten s))"
  using assms
proof (induction s rem cg h ins rule: build_insertion.induct)
  case (1 s rem cg h ins)
  note vs = "1.prems"(1)
  note eq = "1.prems"(2)
  show ?case
  proof (cases "rem > 0")
    case False
    then have "h' = h" "ins' = ins" using eq by (simp_all add: build_insertion.simps)
    then have "h' = h @ [] \<and> ins' = ins @ [] \<and> fresh_clones h [] [] \<and>
               flat (h @ []) [] = take rem (drop cg (flatten s))"
      using False by (simp add: fresh_clones_def)
    then show ?thesis by blast
  next
    case pos: True
    show ?thesis
    proof (cases "findSegmentAt s cg")
      case None
      then have e: "h' = h" "ins' = ins"
        using eq pos by (simp_all add: build_insertion.simps)
      have "total_length s \<le> cg" using vs None by (rule findSegmentAt_None)
      then have "drop cg (flatten s) = []" using length_flatten [OF vs] by simp
      with e have "h' = h @ [] \<and> ins' = ins @ [] \<and> fresh_clones h [] [] \<and>
               flat (h @ []) [] = take rem (drop cg (flatten s))"
        by (simp add: fresh_clones_def)
      then show ?thesis by blast
    next
      case (Some a)
      obtain i lo where a: "a = (i, lo)" by (cases a)
      note S = Some [unfolded a]
      note f = findSegmentAt_Some [OF vs S]
      define cur where "cur = chain s ! i"
      define n where "n = min (length_seg cur - lo) rem"
      define dc where "dc = memcpy (replicate n 0) 0 (heap s ! data cur) (offset cur + lo) n"
      define clone where "clone = (createSegment (length h) 0 n)\<lparr>is_buffer_owner := True\<rparr>"
      have npos: "0 < n" using f(2) pos by (simp add: n_def cur_def)
      have step: "build_insertion s rem cg h ins =
                  build_insertion s (rem - n) (cg + n) (h @ [dc]) (ins @ [clone])"
        using pos S by (subst build_insertion.simps)
          (simp add: Let_def cur_def n_def dc_def clone_def)
      have r: "build_insertion s (rem - n) (cg + n) (h @ [dc]) (ins @ [clone]) = (h', ins')"
        using eq step by simp
      from "1.IH" [OF pos S refl cur_def n_def dc_def clone_def vs r]
      obtain bufs clones where
        IH: "h' = (h @ [dc]) @ bufs" "ins' = (ins @ [clone]) @ clones"
            "fresh_clones (h @ [dc]) bufs clones"
            "flat ((h @ [dc]) @ bufs) clones = take (rem - n) (drop (cg + n) (flatten s))"
        by blast
      have "n \<le> length_seg (chain s ! i) - lo" by (simp add: n_def cur_def)
      from flatten_drop_at [OF vs S this]
      have dc_eq: "dc = take n (drop cg (flatten s))"
        by (simp add: dc_def memcpy_def cur_def)
      have "cg + n \<le> total_length s"
        using f(2,3) valid_trackD(2) [OF vs] total_of_split [OF f(1)]
        by (simp add: n_def cur_def)
      then have ldc: "length dc = n"
        using length_flatten [OF vs] by (simp add: dc_eq)
      have cl: "data clone = length h" "offset clone = 0" "length_seg clone = n"
        by (simp_all add: clone_def createSegment_def mk_node_def)
      have wcl: "window (h @ dc # bufs) clone = dc"
        using ldc by (simp add: window_def cl)
      have ibcl: "in_buffer (h @ dc # bufs) clone"
        using ldc by (simp add: in_buffer_def cl)
      have fc: "fresh_clones h (dc # bufs) (clone # clones)"
        using IH(3) npos ibcl cl
        by (auto simp: fresh_clones_def list_all_iff separate_def)
      have fl: "flat (h @ dc # bufs) (clone # clones) = take rem (drop cg (flatten s))"
      proof -
        have "flat (h @ dc # bufs) (clone # clones) =
              take n (drop cg (flatten s)) @ take (rem - n) (drop (cg + n) (flatten s))"
          using wcl IH(4) dc_eq by simp
        also have "\<dots> = take (n + (rem - n)) (drop cg (flatten s))"
          by (simp add: take_add add.commute)
        also have "n + (rem - n) = rem" by (simp add: n_def)
        finally show ?thesis .
      qed
      have "h' = h @ (dc # bufs) \<and> ins' = ins @ (clone # clones) \<and>
            fresh_clones h (dc # bufs) (clone # clones) \<and>
            flat (h @ (dc # bufs)) (clone # clones) = take rem (drop cg (flatten s))"
        using IH(1,2) fc fl by simp
      then show ?thesis by blast
    qed
  qed
qed

subsection \<open>Splitting a node and locating the destination\<close>

lemma separate_sub_window:
  assumes "separate c d" "data c' = data c" "offset c \<le> offset c'"
    "offset c' + length_seg c' \<le> offset c + length_seg c"
  shows "separate c' d" "separate d c'"
  using assms by (auto simp: separate_def)

lemma list_all_separate_sub_window:
  assumes "list_all (separate c) ds" "data c' = data c" "offset c \<le> offset c'"
    "offset c' + length_seg c' \<le> offset c + length_seg c"
  shows "list_all (separate c') ds"
  using assms(1) separate_sub_window(1) [OF _ assms(2,3,4)] by (simp add: list_all_iff)

lemma pairwise_separate_replace:
  assumes "pairwise_separate (as @ c # cs)"
    "data l = data c" "offset c \<le> offset l" "offset l + length_seg l \<le> offset c + length_seg c"
    "data r = data c" "offset c \<le> offset r" "offset r + length_seg r \<le> offset c + length_seg c"
    "separate l r"
  shows "pairwise_separate (as @ l # r # cs)"
proof -
  from assms(1) have pa: "pairwise_separate as" and pc: "pairwise_separate cs"
    and cc: "list_all (separate c) cs"
    and ac: "\<forall>a\<in>set as. separate a c \<and> list_all (separate a) cs"
    by (simp_all add: pairwise_separate_append)
  have lc: "list_all (separate l) cs" using cc assms(2,3,4) by (rule list_all_separate_sub_window)
  have rc: "list_all (separate r) cs" using cc assms(5,6,7) by (rule list_all_separate_sub_window)
  have "separate a l \<and> separate a r" if "a \<in> set as" for a
  proof -
    have "separate c a" using ac that by (simp add: separate_sym)
    then show ?thesis
      using separate_sub_window(2) [OF _ assms(2,3,4)] separate_sub_window(2) [OF _ assms(5,6,7)]
      by blast
  qed
  then show ?thesis
    using pa pc lc rc ac assms(8) by (simp add: pairwise_separate_append)
qed

lemma locate_dest_props:
  assumes "valid_track t" "locate_dest t dp = (cs, dn)"
  shows "list_all (\<lambda>c. 0 < length_seg c) cs \<and> list_all (in_buffer (heap t)) cs \<and>
         pairwise_separate cs \<and> flat (heap t) cs = flatten t \<and>
         (dn = None \<longrightarrow> total_length t \<le> dp) \<and>
         (\<forall>j. dn = Some j \<longrightarrow> j < length cs \<and> total_of (take j cs) = dp)"
proof -
  note v = valid_trackD [OF assms(1)]
  show ?thesis
  proof (cases "findSegmentAt t dp")
    case None
    then have "cs = chain t" "dn = None" using assms(2) by (simp_all add: locate_dest_def)
    then show ?thesis using v findSegmentAt_None [OF assms(1) None] by (simp add: flatten_def)
  next
    case (Some a)
    obtain i lo where a: "a = (i, lo)" by (cases a)
    note S = Some [unfolded a]
    note f = findSegmentAt_Some [OF assms(1) S]
    show ?thesis
    proof (cases "lo = 0")
      case True
      then have "cs = chain t" "dn = Some i" using assms(2) S by (simp_all add: locate_dest_def)
      then show ?thesis using v f True by (simp add: flatten_def)
    next
      case False
      define node where "node = chain t ! i"
      define l where "l = node\<lparr>length_seg := lo\<rparr>"
      define r where "r = (mk_node (data node) (offset node + lo) (length_seg node - lo))
                            \<lparr>global_start := global_start node + lo\<rparr>"
      let ?pre = "take i (chain t)" and ?post = "drop (Suc i) (chain t)"
      have sp: "splitNode (chain t) i lo = Some (?pre @ [l, r] @ ?post, Suc i)"
        using f(1,2) by (simp add: splitNode_def Let_def node_def l_def r_def)
      have cs: "cs = ?pre @ l # r # ?post" and dn: "dn = Some (Suc i)"
        using assms(2) S False sp by (simp_all add: locate_dest_def)
      have ch: "chain t = ?pre @ node # ?post"
        using f(1) by (simp add: node_def id_take_nth_drop [symmetric])
      have lo: "lo < length_seg node" using f(2) by (simp add: node_def)
      have rf: "data r = data node" "offset r = offset node + lo"
        "length_seg r = length_seg node - lo"
        by (simp_all add: r_def mk_node_def)
      have lf: "data l = data node" "offset l = offset node" "length_seg l = lo"
        by (simp_all add: l_def)
      have ibn: "in_buffer (heap t) node" and ibp: "list_all (in_buffer (heap t)) ?pre"
        and ibq: "list_all (in_buffer (heap t)) ?post"
        using v(4) by (subst (asm) ch, simp)+
      have psn: "list_all (\<lambda>c. 0 < length_seg c) ?pre" "list_all (\<lambda>c. 0 < length_seg c) ?post"
        using v(3) by (subst (asm) ch, simp)+
      have A: "list_all (\<lambda>c. 0 < length_seg c) cs"
        using psn False lo by (simp add: cs lf rf)
      have B: "list_all (in_buffer (heap t)) cs"
        using ibp ibq ibn lo by (simp add: cs in_buffer_def lf rf)
      have "pairwise_separate (?pre @ node # ?post)" using v(5) ch by simp
      then have C: "pairwise_separate cs"
        unfolding cs using lo
        by (intro pairwise_separate_replace [where c = node]) (simp_all add: lf rf separate_def)
      define B where "B = drop (offset node) (heap t ! data node)"
      have wl: "window (heap t) l = take lo B" by (simp add: window_def lf B_def)
      have wr: "window (heap t) r = take (length_seg node - lo) (drop lo B)"
        by (simp add: window_def rf B_def add.commute)
      have "take (lo + (length_seg node - lo)) B = take lo B @ take (length_seg node - lo) (drop lo B)"
        by (rule take_add)
      moreover have "lo + (length_seg node - lo) = length_seg node" using lo by simp
      ultimately have "window (heap t) l @ window (heap t) r = window (heap t) node"
        using wl wr by (simp add: window_def B_def)
      then have D: "flat (heap t) cs = flatten t"
        unfolding flatten_def by (subst ch) (simp add: cs)
      have E: "Suc i < length cs \<and> total_of (take (Suc i) cs) = dp"
        using f(1,3) by (simp add: cs lf)
      show ?thesis using A B C D E dn by simp
    qed
  qed
qed

subsection \<open>The splice\<close>

lemma flat_take_total:
  assumes "list_all (in_buffer h) cs"
  shows "flat h (take j cs) = take (total_of (take j cs)) (flat h cs)"
    and "flat h (drop j cs) = drop (total_of (take j cs)) (flat h cs)"
proof -
  have "list_all (in_buffer h) (take j cs)" using assms by (rule list_all_positive_take_drop)
  then have l: "length (flat h (take j cs)) = total_of (take j cs)" by (rule length_flat)
  have "flat h cs = flat h (take j cs) @ flat h (drop j cs)"
    by (metis append_take_drop_id flat_append)
  then show "flat h (take j cs) = take (total_of (take j cs)) (flat h cs)"
    and "flat h (drop j cs) = drop (total_of (take j cs)) (flat h cs)"
    using l by simp_all
qed

lemma spliced_props:
  fixes t :: SoundSegment and cs clones :: "SegmentNode list" and j :: nat
    and bufs :: "sample list list"
  assumes "valid_track t"
    "list_all (\<lambda>c. 0 < length_seg c) cs" "list_all (in_buffer (heap t)) cs"
    "pairwise_separate cs" "flat (heap t) cs = flatten t"
    "fresh_clones (heap t) bufs clones"
  defines "t' \<equiv> updateGlobalIndices (t\<lparr>heap := heap t @ bufs, chain := take j cs @ clones @ drop j cs\<rparr>)"
  shows "valid_track t'"
    and "flatten t' = take (total_of (take j cs)) (flatten t) @ flat (heap t @ bufs) clones @
                      drop (total_of (take j cs)) (flatten t)"
proof -
  let ?h' = "heap t @ bufs"
  let ?A = "take j cs" and ?C = "drop j cs"
  from assms(6) have fc:
    "list_all (\<lambda>c. 0 < length_seg c) clones" "list_all (in_buffer ?h') clones"
    "list_all (\<lambda>c. length (heap t) \<le> data c) clones" "pairwise_separate clones"
    by (simp_all add: fresh_clones_def)
  have pA: "list_all (\<lambda>c. 0 < length_seg c) ?A" and pC: "list_all (\<lambda>c. 0 < length_seg c) ?C"
    using assms(2) by (rule list_all_positive_take_drop)+
  have iA: "list_all (in_buffer (heap t)) ?A" and iC: "list_all (in_buffer (heap t)) ?C"
    using assms(3) by (rule list_all_positive_take_drop)+
  have sA: "pairwise_separate ?A" and sC: "pairwise_separate ?C"
    and sAC: "\<forall>a\<in>set ?A. list_all (separate a) ?C"
    using assms(4) pairwise_separate_append [of ?A ?C] by simp_all
  have old_new: "separate a c" "separate c a" if "a \<in> set cs" "c \<in> set clones" for a c
  proof -
    have "data a < length (heap t)" using assms(3) that(1) by (simp add: list_all_iff in_buffer_def)
    moreover have "length (heap t) \<le> data c" using fc(3) that(2) by (simp add: list_all_iff)
    ultimately show "separate a c" "separate c a" by (simp_all add: separate_def)
  qed
  have sAn: "\<forall>a\<in>set ?A. list_all (separate a) clones"
    using old_new(1) by (auto simp: list_all_iff dest: in_set_takeD)
  have snC: "\<forall>c\<in>set clones. list_all (separate c) ?C"
    using old_new(2) by (auto simp: list_all_iff dest: in_set_dropD)
  show "valid_track t'"
    unfolding t'_def
  proof (rule valid_updateGlobalIndices)
    show "list_all (\<lambda>c. 0 < length_seg c)
            (chain (t\<lparr>heap := ?h', chain := ?A @ clones @ ?C\<rparr>))"
      using pA pC fc(1) by simp
    show "list_all (in_buffer (heap (t\<lparr>heap := ?h', chain := ?A @ clones @ ?C\<rparr>)))
            (chain (t\<lparr>heap := ?h', chain := ?A @ clones @ ?C\<rparr>))"
      using iA iC fc(2) by (simp add: list_all_in_buffer_heap_append)
    show "pairwise_separate (chain (t\<lparr>heap := ?h', chain := ?A @ clones @ ?C\<rparr>))"
      using sA sC sAC sAn snC fc(4) by (simp add: pairwise_separate_append)
  qed
  have "flatten t' = flat ?h' ?A @ flat ?h' clones @ flat ?h' ?C"
    unfolding t'_def by (subst flatten_updateGlobalIndices) (simp add: flatten_def)
  also have "flat ?h' ?A = take (total_of ?A) (flatten t)"
    using flat_heap_append [OF iA] flat_take_total(1) [OF assms(3)] assms(5) by simp
  also have "flat ?h' ?C = drop (total_of ?A) (flatten t)"
    using flat_heap_append [OF iC] flat_take_total(2) [OF assms(3)] assms(5) by simp
  finally show "flatten t' = take (total_of ?A) (flatten t) @ flat ?h' clones @
                  drop (total_of ?A) (flatten t)" .
qed

lemma fresh_clones_empty:
  assumes "fresh_clones h bufs clones" "flat (h @ bufs) clones = []"
  shows "clones = []" "bufs = []"
proof -
  show "clones = []"
  proof (cases clones)
    case Nil
    then show ?thesis .
  next
    case (Cons c cs)
    then have "in_buffer (h @ bufs) c" "0 < length_seg c"
      using assms(1) by (simp_all add: fresh_clones_def)
    then have "window (h @ bufs) c \<noteq> []" using length_window by fastforce
    then show ?thesis using assms(2) Cons by simp
  qed
  then show "bufs = []" using assms(1) by (simp add: fresh_clones_def)
qed

lemma insert_track_cases:
  assumes "valid_track t" "valid_track s" "0 < len"
  obtains (crashed) "total_length s \<le> sp" "dp < total_length t"
      "insert_track t s dp sp len = Inl NullDereference"
  | (spliced) t' where "sp < total_length s \<or> total_length t \<le> dp"
      "insert_track t s dp sp len = Inr t'" "valid_track t'"
      "flatten t' = take dp (flatten t) @ take len (drop sp (flatten s)) @ drop dp (flatten t)"
proof -
  obtain h ins where b: "build_insertion s len sp (heap t) [] = (h, ins)"
    by (cases "build_insertion s len sp (heap t) []")
  from build_insertion_props [OF assms(2) b]
  obtain bufs where h: "h = heap t @ bufs" and fc: "fresh_clones (heap t) bufs ins"
    and fl: "flat (heap t @ bufs) ins = take len (drop sp (flatten s))"
    by auto
  obtain cs dn where l: "locate_dest t dp = (cs, dn)" by (cases "locate_dest t dp")
  note L = locate_dest_props [OF assms(1) l]
  have it: "insert_track t s dp sp len = splice t h ins cs dn"
    using assms(3) b l by (simp add: insert_track_def)
  have lf: "length (flatten t) = total_length t" using assms(1) by (rule length_flatten)
  have ls: "length (flatten s) = total_length s" using assms(2) by (rule length_flatten)
  note SP = spliced_props [OF assms(1) _ _ _ _ fc, of cs]
  show ?thesis
  proof (cases dn)
    case None
    then have far: "total_length t \<le> dp" using L by simp
    have tot: "total_of cs = total_length t"
      using L lf length_flat [of "heap t" cs] by simp
    let ?t' = "updateGlobalIndices (t\<lparr>heap := heap t @ bufs,
                 chain := take (length cs) cs @ ins @ drop (length cs) cs\<rparr>)"
    have r: "insert_track t s dp sp len = Inr ?t'"
      using it None h by (simp add: splice_def)
    have "valid_track ?t'" using L by (intro SP(1)) simp_all
    moreover have "flatten ?t' = take dp (flatten t) @ take len (drop sp (flatten s)) @
                     drop dp (flatten t)"
      using L fl far tot lf by (subst SP(2)) simp_all
    ultimately show ?thesis using far r by (intro spliced [of ?t']) simp_all
  next
    case (Some j)
    then have j: "j < length cs" "total_of (take j cs) = dp" using L by simp_all
    have "total_of (take j cs) + length_seg (cs ! j) \<le> total_of cs"
      using total_of_split [OF j(1)] by simp
    moreover have "0 < length_seg (cs ! j)" using L j(1) by (simp add: list_all_length)
    moreover have "total_of cs = total_length t"
      using L lf length_flat [of "heap t" cs] by simp
    ultimately have near: "dp < total_length t" using j(2) by simp
    show ?thesis
    proof (cases "ins = []")
      case True
      then have "take len (drop sp (flatten s)) = []" using fl by simp
      then have empty: "total_length s \<le> sp" using assms(3) ls by simp
      have "insert_track t s dp sp len = Inl NullDereference"
        using it Some True by (simp add: splice_def)
      with empty near show ?thesis by (rule crashed)
    next
      case False
      let ?t' = "updateGlobalIndices (t\<lparr>heap := heap t @ bufs,
                   chain := take j cs @ ins @ drop j cs\<rparr>)"
      have r: "insert_track t s dp sp len = Inr ?t'"
        using it Some False h by (simp add: splice_def)
      have "take len (drop sp (flatten s)) \<noteq> []"
      proof
        assume "take len (drop sp (flatten s)) = []"
        then have "flat (heap t @ bufs) ins = []" using fl by simp
        from fresh_clones_empty(1) [OF fc this] False show False by simp
      qed
      then have src: "sp < total_length s" using ls by simp
      have "valid_track ?t'" using L by (intro SP(1)) simp_all
      moreover have "flatten ?t' = take dp (flatten t) @ take len (drop sp (flatten s)) @
                       drop dp (flatten t)"
        using L fl j by (subst SP(2)) simp_all
      ultimately show ?thesis using src r by (intro spliced [of ?t']) simp_all
    qed
  qed
qed

lemma valid_insert_track:
  assumes "valid_track t" "valid_track s" "insert_track t s dp sp len = Inr t'"
  shows "valid_track t'"
proof (cases "len = 0")
  case True
  then show ?thesis using assms by (simp add: insert_track_def)
next
  case False
  then have "0 < len" by simp
  from assms(1,2) this show ?thesis
    by (cases rule: insert_track_cases [where sp = sp and dp = dp]) (use assms(3) in auto)
qed

lemma reachable_valid: "reachable t \<Longrightarrow> valid_track t"
proof (induction rule: reachable.induct)
  case reach_create
  show ?case by (rule valid_create)
next
  case (reach_write t src pos)
  then show ?case by (simp add: valid_write_track)
next
  case (reach_deleteRange t pos len)
  then show ?case by (simp add: valid_deleteRange)
next
  case (reach_insert t s dest_pos src_pos len t')
  then show ?case using valid_insert_track by blast
next
  case (reach_loadFromWav t samples)
  then show ?case by (simp add: loadFromWav_def valid_write_track)
qed

lemmas insert_eval = eval_defs replicate_numeral build_insertion.simps

text \<open>
  Claim C3. For consistent tracks \<open>D\<close> (contents \<open>d\<close>) and \<open>S\<close> (contents \<open>s\<close>) and
  ranges in bounds, \<^verbatim>\<open>insert(S, dest_pos, src_pos, len)\<close> returns normally and leaves in
  \<open>D\<close> the samples \<open>d[0, dest_pos)\<close>, then \<open>s[src_pos, src_pos + len)\<close>, then
  \<open>d[dest_pos, |d|)\<close>.
\<close>

theorem insert_track_contents:
  assumes "valid_track t" "valid_track s" "dest_pos \<le> total_length t"
    "src_pos + len \<le> total_length s"
  shows "\<exists>t'. insert_track t s dest_pos src_pos len = Inr t' \<and>
              getAllSamples t' =
                take dest_pos (getAllSamples t) @ take len (drop src_pos (getAllSamples s)) @
                drop dest_pos (getAllSamples t)"
proof (cases "len = 0")
  case True
  then show ?thesis by (simp add: insert_track_def)
next
  case False
  then have "0 < len" by simp
  from assms(1,2) this show ?thesis
  proof (cases rule: insert_track_cases [where sp = src_pos and dp = dest_pos])
    case crashed
    then show ?thesis using assms(4) False by simp
  next
    case (spliced t')
    then show ?thesis using assms(1,2) by (simp add: getAllSamples_flatten)
  qed
qed

text \<open>
  Witness for C3, the example of the specification: destination \<open>[1..10]\<close>, source
  \<open>[100..104]\<close>, \<^verbatim>\<open>insert(source, 5, 1, 3)\<close>.
\<close>

theorem insert_track_contents_witness:
  "valid_track (write_track create [1, 2, 3, 4, 5, 6, 7, 8, 9, 10] 0) \<and>
   valid_track (write_track create [100, 101, 102, 103, 104] 0) \<and>
   5 \<le> total_length (write_track create [1, 2, 3, 4, 5, 6, 7, 8, 9, 10] 0) \<and>
   1 + 3 \<le> total_length (write_track create [100, 101, 102, 103, 104] 0) \<and>
   map_sum id getAllSamples
     (insert_track (write_track create [1, 2, 3, 4, 5, 6, 7, 8, 9, 10] 0)
        (write_track create [100, 101, 102, 103, 104] 0) 5 1 3) =
     Inr [1, 2, 3, 4, 5, 101, 102, 103, 6, 7, 8, 9, 10]"
proof -
  let ?d = "write_track create [1, 2, 3, 4, 5, 6, 7, 8, 9, 10] 0"
  let ?s = "write_track create [100, 101, 102, 103, 104] 0"
  have vd: "valid_track ?d" by (simp add: insert_eval valid_defs)
  have vs: "valid_track ?s" by (simp add: insert_eval valid_defs)
  have ld: "5 \<le> total_length ?d" by (simp add: insert_eval)
  have ls: "1 + 3 \<le> total_length ?s" by (simp add: insert_eval)
  have gd: "getAllSamples ?d = [1, 2, 3, 4, 5, 6, 7, 8, 9, 10]" by (simp add: insert_eval)
  have gs: "getAllSamples ?s = [100, 101, 102, 103, 104]" by (simp add: insert_eval)
  from insert_track_contents [OF vd vs ld ls] obtain t' where
    "insert_track ?d ?s 5 1 3 = Inr t'"
    "getAllSamples t' = take 5 (getAllSamples ?d) @ take 3 (drop 1 (getAllSamples ?s)) @
                        drop 5 (getAllSamples ?d)"
    by blast
  then have "map_sum id getAllSamples (insert_track ?d ?s 5 1 3) =
             Inr [1, 2, 3, 4, 5, 101, 102, 103, 6, 7, 8, 9, 10]"
    by (simp add: gd gs)
  with vd vs ld ls show ?thesis by simp
qed

text \<open>
  Claim C10 fails on the code. With destination \<open>[1, 2, 3]\<close> and source \<open>[100, 101]\<close>,
  \<^verbatim>\<open>insert(source, 1, 2, 1)\<close> builds no node (\<^verbatim>\<open>src_pos\<close> is the length of the source),
  splits the destination at 1, and then executes \<^verbatim>\<open>insertion_tail->next = dest_node\<close>
  with \<^verbatim>\<open>insertion_tail\<close> null.
\<close>

theorem insert_without_samples_dereferences_null:
  "insert_track (write_track create [1, 2, 3] 0) (write_track create [100, 101] 0) 1 2 1 =
     Inl NullDereference"
  by (simp add: insert_eval)

section \<open>The invariant of the chain\<close>

lemma indexed_nth:
  "indexed g cs \<Longrightarrow> i < length cs \<Longrightarrow> global_start (cs ! i) = g + total_of (take i cs)"
proof (induction cs arbitrary: g i)
  case Nil
  then show ?case by simp
next
  case (Cons c cs)
  show ?case
  proof (cases i)
    case 0
    then show ?thesis using Cons.prems by simp
  next
    case (Suc k)
    then have "global_start (cs ! k) = g + length_seg c + total_of (take k cs)"
      using Cons.prems by (intro Cons.IH) simp_all
    then show ?thesis using Suc by simp
  qed
qed

lemma total_of_take_mono: "i \<le> j \<Longrightarrow> total_of (take i cs) \<le> total_of (take j cs)"
proof -
  assume "i \<le> j"
  then have "take j cs = take i cs @ take (j - i) (drop i cs)"
    by (metis le_add_diff_inverse take_add)
  then show ?thesis by simp
qed

lemma total_of_take_Suc:
  "i < length cs \<Longrightarrow> total_of (take (Suc i) cs) = total_of (take i cs) + length_seg (cs ! i)"
  by (simp add: take_Suc_conv_app_nth)

lemma tiling:
  assumes "valid_track t" "p < total_length t"
  shows "\<exists>!i. i < length (chain t) \<and> global_start (chain t ! i) \<le> p \<and>
              p < global_start (chain t ! i) + length_seg (chain t ! i)"
proof -
  note v = valid_trackD [OF assms(1)]
  let ?cs = "chain t"
  have gs: "global_start (?cs ! i) = total_of (take i ?cs)" if "i < length ?cs" for i
    using indexed_nth [OF v(1) that] by simp
  obtain a where "findSegmentAt t p = Some a"
    using findSegmentAt_None [OF assms(1), of p] assms(2) by (cases "findSegmentAt t p") auto
  then obtain i lo where S: "findSegmentAt t p = Some (i, lo)" by (cases a) auto
  note f = findSegmentAt_Some [OF assms(1) S]
  have ex: "i < length ?cs \<and> global_start (?cs ! i) \<le> p \<and>
            p < global_start (?cs ! i) + length_seg (?cs ! i)"
    using f gs by simp
  have uniq: "j = k" if
    j: "j < length ?cs" "global_start (?cs ! j) \<le> p"
       "p < global_start (?cs ! j) + length_seg (?cs ! j)" and
    k: "k < length ?cs" "global_start (?cs ! k) \<le> p"
       "p < global_start (?cs ! k) + length_seg (?cs ! k)" for j k
  proof (rule ccontr)
    assume "j \<noteq> k"
    then consider "Suc j \<le> k" | "Suc k \<le> j" by linarith
    then show False
    proof cases
      case 1
      from total_of_take_mono [OF this, of ?cs] total_of_take_Suc [OF j(1)] gs [OF j(1)] gs [OF k(1)]
      show False using j(3) k(2) by simp
    next
      case 2
      from total_of_take_mono [OF this, of ?cs] total_of_take_Suc [OF k(1)] gs [OF j(1)] gs [OF k(1)]
      show False using k(3) j(2) by simp
    qed
  qed
  from ex uniq show ?thesis by blast
qed

text \<open>
  Claim C6. In every track that calls of \<^verbatim>\<open>write\<close>, \<^verbatim>\<open>deleteRange\<close>, \<^verbatim>\<open>insert\<close> and
  \<^verbatim>\<open>loadFromWav\<close> build from an empty one: the cached \<^verbatim>\<open>global_start\<close> of each node is
  the sum of the lengths of the nodes before it, \<^verbatim>\<open>total_length\<close> is the sum of all
  lengths, every position below \<^verbatim>\<open>total_length\<close> lies in the range of exactly one node,
  no node has length 0, and recomputing the indices changes nothing.
\<close>

theorem reachable_chain_invariant:
  assumes "reachable t"
  shows "(\<forall>i<length (chain t). global_start (chain t ! i) = total_of (take i (chain t))) \<and>
         total_length t = total_of (chain t) \<and>
         (\<forall>p<total_length t.
            \<exists>!i. i < length (chain t) \<and> global_start (chain t ! i) \<le> p \<and>
                  p < global_start (chain t ! i) + length_seg (chain t ! i)) \<and>
         (\<forall>c\<in>set (chain t). length_seg c \<noteq> 0) \<and>
         updateGlobalIndices t = t"
proof -
  have v: "valid_track t" using assms by (rule reachable_valid)
  note d = valid_trackD [OF v]
  have "chain_inv t" using v by (simp add: valid_track_def)
  then have "updateGlobalIndices t = t" by (rule updateGlobalIndices_id)
  moreover have "\<forall>c\<in>set (chain t). length_seg c \<noteq> 0"
    using d(3) by (auto simp: list_all_iff)
  ultimately show ?thesis
    using indexed_nth [OF d(1)] d(2) tiling [OF v] by simp
qed

text \<open>
  Witness for C6: \<open>[1, 2, 3]\<close> written at 0, \<open>[4, 5]\<close> written behind it, then
  \<^verbatim>\<open>deleteRange(2, 2)\<close> across the two nodes.
\<close>

theorem reachable_chain_invariant_witness:
  "reachable (snd (deleteRange (write_track (write_track create [1, 2, 3] 0) [4, 5] 3) 2 2)) \<and>
   chain (snd (deleteRange (write_track (write_track create [1, 2, 3] 0) [4, 5] 3) 2 2)) =
     [(mk_node 0 0 2)\<lparr>is_buffer_owner := True\<rparr>,
      (mk_node 1 0 1)\<lparr>global_start := 2, is_buffer_owner := True\<rparr>] \<and>
   total_length (snd (deleteRange (write_track (write_track create [1, 2, 3] 0) [4, 5] 3) 2 2)) =
     total_of (chain (snd (deleteRange (write_track (write_track create [1, 2, 3] 0) [4, 5] 3) 2 2))) \<and>
   updateGlobalIndices (snd (deleteRange (write_track (write_track create [1, 2, 3] 0) [4, 5] 3) 2 2)) =
     snd (deleteRange (write_track (write_track create [1, 2, 3] 0) [4, 5] 3) 2 2)"
proof -
  let ?t = "snd (deleteRange (write_track (write_track create [1, 2, 3] 0) [4, 5] 3) 2 2)"
  have r: "reachable ?t"
    by (intro reachable.intros)
  have c: "chain ?t = [(mk_node 0 0 2)\<lparr>is_buffer_owner := True\<rparr>,
                       (mk_node 1 0 1)\<lparr>global_start := 2, is_buffer_owner := True\<rparr>]"
    by (simp add: insert_eval)
  from reachable_chain_invariant [OF r] r c show ?thesis by simp
qed

section \<open>Child references\<close>

text \<open>
  \<^verbatim>\<open>addChild\<close> is never called: no operation records a child reference, so no track
  built from an empty one has a node with an active child.
\<close>

lemma childless_reindex:
  "list_all (\<lambda>c. children c = []) (reindex g cs) = list_all (\<lambda>c. children c = []) cs"
  by (induction cs arbitrary: g) simp_all

lemma childless_delete_pass:
  assumes "list_all (\<lambda>c. children c = []) cs" "delete_pass td lo h cs = (h', cs')"
  shows "list_all (\<lambda>c. children c = []) cs'"
  using assms
proof (induction cs arbitrary: td lo h' cs')
  case Nil
  then show ?case by simp
next
  case (Cons c rest)
  have IH: "list_all (\<lambda>c. children c = []) r"
    if "delete_pass td' 0 h rest = (h1, r)" for td' h1 r
    using Cons.IH [OF _ that] Cons.prems(1) by simp
  show ?case using Cons.prems IH
    by (auto simp: Let_def split: if_splits prod.splits)
qed

lemma childless_build_insertion:
  assumes "list_all (\<lambda>c. children c = []) ins"
  shows "list_all (\<lambda>c. children c = []) (snd (build_insertion s rem cg h ins))"
  using assms
proof (induction s rem cg h ins rule: build_insertion.induct)
  case (1 s rem cg h ins)
  show ?case
  proof (cases "rem > 0")
    case False
    then show ?thesis using "1.prems" by (simp add: build_insertion.simps)
  next
    case pos: True
    show ?thesis
    proof (cases "findSegmentAt s cg")
      case None
      then show ?thesis using "1.prems" pos by (simp add: build_insertion.simps)
    next
      case (Some a)
      obtain i lo where a: "a = (i, lo)" by (cases a)
      note S = Some [unfolded a]
      define cur where "cur = chain s ! i"
      define n where "n = min (length_seg cur - lo) rem"
      define dc where "dc = memcpy (replicate n 0) 0 (heap s ! data cur) (offset cur + lo) n"
      define clone where "clone = (createSegment (length h) 0 n)\<lparr>is_buffer_owner := True\<rparr>"
      have step: "build_insertion s rem cg h ins =
                  build_insertion s (rem - n) (cg + n) (h @ [dc]) (ins @ [clone])"
        using pos S by (subst build_insertion.simps)
          (simp add: Let_def cur_def n_def dc_def clone_def)
      have "list_all (\<lambda>c. children c = []) (ins @ [clone])"
        using "1.prems" by (simp add: clone_def createSegment_def mk_node_def)
      from "1.IH" [OF pos S refl cur_def n_def dc_def clone_def this]
      show ?thesis by (simp add: step)
    qed
  qed
qed

lemma childless_locate_dest:
  assumes "list_all (\<lambda>c. children c = []) (chain t)"
  shows "list_all (\<lambda>c. children c = []) (fst (locate_dest t dp))"
proof -
  have sp: "list_all (\<lambda>c. children c = []) cs'"
    if "splitNode (chain t) i lo = Some (cs', j)" for i lo cs' j
  proof -
    from that have i: "i < length (chain t)"
      and cs': "cs' = take i (chain t) @
                 [(chain t ! i)\<lparr>length_seg := lo\<rparr>,
                  (mk_node (data (chain t ! i)) (offset (chain t ! i) + lo)
                     (length_seg (chain t ! i) - lo))
                  \<lparr>global_start := global_start (chain t ! i) + lo\<rparr>] @
                 drop (Suc i) (chain t)"
      by (auto simp: splitNode_def Let_def split: if_splits)
    have "list_all (\<lambda>c. children c = []) (take i (chain t))"
      "list_all (\<lambda>c. children c = []) (drop (Suc i) (chain t))"
      using assms by (rule list_all_positive_take_drop)+
    moreover have "children (chain t ! i) = []" using assms i by (simp add: list_all_length)
    ultimately show ?thesis by (simp add: cs' mk_node_def)
  qed
  show ?thesis
    using assms sp by (auto simp: locate_dest_def split: option.splits prod.splits)
qed

lemma childless_insert_track:
  assumes "list_all (\<lambda>c. children c = []) (chain t)" "insert_track t s dp sp len = Inr t'"
  shows "list_all (\<lambda>c. children c = []) (chain t')"
proof (cases "len = 0")
  case True
  then show ?thesis using assms by (simp add: insert_track_def)
next
  case False
  obtain h ins where b: "build_insertion s len sp (heap t) [] = (h, ins)"
    by (cases "build_insertion s len sp (heap t) []")
  obtain cs dn where l: "locate_dest t dp = (cs, dn)" by (cases "locate_dest t dp")
  have ci: "list_all (\<lambda>c. children c = []) ins"
    using childless_build_insertion [of "[]" s len sp "heap t"] b by simp
  have cc: "list_all (\<lambda>c. children c = []) cs"
    using childless_locate_dest [OF assms(1), of dp] l by simp
  then have "list_all (\<lambda>c. children c = []) (take j cs)"
    "list_all (\<lambda>c. children c = []) (drop j cs)" for j
    by (rule list_all_positive_take_drop)+
  moreover have "splice t h ins cs dn = Inr t'"
    using assms(2) False b l by (simp add: insert_track_def)
  ultimately show ?thesis using ci cc
    by (auto simp: splice_def updateGlobalIndices_def childless_reindex
             split: option.splits if_splits)
qed

lemma childless_write_track:
  assumes "list_all (\<lambda>c. children c = []) (chain t)"
  shows "list_all (\<lambda>c. children c = []) (chain (write_track t src pos))"
  using assms
  by (auto simp: write_track_def write_result_def Let_def extend_track_def new_buffer_def
        updateGlobalIndices_def childless_reindex mk_node_def split: sum.splits if_splits)

lemma childless_deleteRange:
  assumes "list_all (\<lambda>c. children c = []) (chain t)"
  shows "list_all (\<lambda>c. children c = []) (chain (snd (deleteRange t pos len)))"
proof -
  have tk: "list_all (\<lambda>c. children c = []) (take i (chain t))"
    and dr: "list_all (\<lambda>c. children c = []) (drop i (chain t))" for i
    using assms by (rule list_all_positive_take_drop)+
  have "list_all (\<lambda>c. children c = []) r"
    if "delete_pass len lo (heap t) (drop i (chain t)) = (h1, r)" for i lo h1 r
    using dr that by (rule childless_delete_pass)
  then show ?thesis using assms tk
    by (auto simp: deleteRange_def updateGlobalIndices_def childless_reindex
             split: option.splits prod.splits)
qed

lemma reachable_childless: "reachable t \<Longrightarrow> list_all (\<lambda>c. children c = []) (chain t)"
proof (induction rule: reachable.induct)
  case reach_create
  show ?case by (simp add: create_def)
next
  case (reach_write t src pos)
  from reach_write.IH show ?case by (rule childless_write_track)
next
  case (reach_deleteRange t pos len)
  from reach_deleteRange.IH show ?case by (rule childless_deleteRange)
next
  case (reach_insert t s dest_pos src_pos len t')
  then show ?case using childless_insert_track by blast
next
  case (reach_loadFromWav t samples)
  then show ?case by (simp add: loadFromWav_def childless_write_track)
qed

lemma reachable_no_active_children:
  assumes "reachable t" "c \<in> set (chain t)"
  shows "\<not> hasActiveChildren c"
  using reachable_childless [OF assms(1)] assms(2)
  by (simp add: list_all_iff hasActiveChildren_def)

section \<open>Finding a pattern\<close>

subsection \<open>Rounding to \<^verbatim>\<open>double\<close>\<close>

lemma round_half_even_int [simp]: "round_half_even (of_int k) = k"
  by (simp add: round_half_even_def)



lemma binade_eqI:
  assumes "2 powr real_of_int e \<le> \<bar>x\<bar>" "\<bar>x\<bar> < 2 powr real_of_int (e + 1)"
  shows "binade x = e"
proof -
  have "0 < \<bar>x\<bar>" using assms(1) by (smt (verit) powr_gt_zero)
  then show ?thesis unfolding binade_def using assms
    by (subst floor_log_eq_powr_iff) simp_all
qed



lemma to_double_binade:
  assumes "2 powr real_of_int e \<le> \<bar>x\<bar>" "\<bar>x\<bar> < 2 powr real_of_int (e + 1)"
  shows "to_double x =
           real_of_int (round_half_even (x / 2 powr real_of_int (e - 52))) *
           2 powr real_of_int (e - 52)"
proof -
  have "0 < \<bar>x\<bar>" using assms(1) by (smt (verit) powr_gt_zero)
  then have "x \<noteq> 0" by simp
  then show ?thesis using binade_eqI [OF assms] by (simp add: to_double_def ulp_def)
qed










subsection \<open>The sums of \<^verbatim>\<open>identify\<close>\<close>










subsection \<open>The threshold\<close>










subsection \<open>The scan\<close>









section \<open>The two implementations compared\<close>

text \<open>
  Claim C9 fails on the code. After \<^verbatim>\<open>write({1, 2, 3}, 0)\<close> and \<^verbatim>\<open>write({4, 5, 6}, 3)\<close> the
  track has two nodes. \<^verbatim>\<open>deleteRange(1, 4)\<close> of \<^verbatim>\<open>SoundSegment.cpp\<close> leaves \<open>[1, 6]\<close>. The
  loop of \<^verbatim>\<open>SoundSegment_Simple.cpp\<close> looks the position up again after shortening the
  first node, with the cached indices not yet recomputed; no node contains the position
  any more, the loop stops, and the call returns \<^verbatim>\<open>true\<close> with \<open>[1, 4, 5, 6]\<close>. The two
  also differ on an \<^verbatim>\<open>insert\<close> whose source range is empty. The \<^verbatim>\<open>write\<close> of either
  implementation builds the same tracks here.
\<close>

theorem implementations_differ:
  "deleteRange (write_track (write_track create [1, 2, 3] 0) [4, 5, 6] 3) 1 4 =
     (True, \<lparr>heap = [[1, 2, 3], [6, 5, 6]],
             chain = [(mk_node 0 0 1)\<lparr>is_buffer_owner := True\<rparr>,
                      (mk_node 1 0 1)\<lparr>global_start := 1, is_buffer_owner := True\<rparr>],
             total_length = 2\<rparr>) \<and>
   getAllSamples (snd (deleteRange (write_track (write_track create [1, 2, 3] 0) [4, 5, 6] 3) 1 4))
     = [1, 6] \<and>
   fst (deleteRange_Simple (write_track (write_track create [1, 2, 3] 0) [4, 5, 6] 3) 1 4) \<and>
   getAllSamples
     (snd (deleteRange_Simple (write_track (write_track create [1, 2, 3] 0) [4, 5, 6] 3) 1 4))
     = [1, 4, 5, 6] \<and>
   insert_track (write_track create [1, 2, 3] 0) (write_track create [100, 101] 0) 1 2 1 =
     Inl NullDereference \<and>
   insert_Simple (write_track create [1, 2, 3] 0) (write_track create [100, 101] 0) 1 2 1 =
     Inr (write_track create [1, 2, 3] 0) \<and>
   getAllSamples (write_track create [1, 2, 3] 0) = [1, 2, 3] \<and>
   write_Simple create [1, 2, 3] 0 = Inr (write_track create [1, 2, 3] 0) \<and>
   write_Simple (write_track create [1, 2, 3] 0) [4, 5, 6] 3 =
     Inr (write_track (write_track create [1, 2, 3] 0) [4, 5, 6] 3) \<and>
   write_Simple create [100, 101] 0 = Inr (write_track create [100, 101] 0)"
  by (simp add: insert_eval deleteRange_Simple_def deleteRange_Simple_loop.simps insert_Simple_def
        write_Simple_def extend_Simple_def malloc_buffer_def BYTES_PER_SAMPLE_def)

end
